theory Spec2Isabelle
  imports Main "HOL-Library.Sublist"
begin

section \<open>The pairing groups of package bn256\<close>

text \<open>
  The repository works over the three groups \<open>G1\<close>, \<open>G2\<close>, \<open>GT\<close> of the external package
  \<open>golang.org/x/crypto/bn256\<close>. Their elements are values of three types \<open>'a\<close>, \<open>'b\<close>,
  \<open>'c\<close> of class \<open>ab_group_add\<close>: the group law is \<open>+\<close> (the package writes all three
  groups additively: \<open>Add\<close>, \<open>Neg\<close>, \<open>ScalarMult\<close>). A scalar (\<open>*big.Int\<close>) is a
  natural number; \<open>smul a k\<close> is the \<open>k\<close>-fold sum of \<open>a\<close>, which is what
  \<open>ScalarMult\<close> computes for a non-negative scalar.

  What the package fixes and the repository only uses is a parameter: the group order
  \<open>bn256.Order\<close>, the two base points of \<open>ScalarBaseMult\<close>, and the pairing \<open>bn256.Pair\<close>.
\<close>

primrec smul :: "'g::ab_group_add \<Rightarrow> nat \<Rightarrow> 'g" where
  "smul a 0 = 0"
| "smul a (Suc k) = a + smul a k"

record ('a, 'b, 'c) bn256 =
  Order :: nat
  Base1 :: 'a
  Base2 :: 'b
  Pairing_of :: "'a \<Rightarrow> 'b \<Rightarrow> 'c"

text \<open>The one property of the pairing the scheme relies on: it is additive in each argument.\<close>

definition bilinear :: "('a::ab_group_add \<Rightarrow> 'b::ab_group_add \<Rightarrow> 'c::ab_group_add) \<Rightarrow> bool" where
  "bilinear e \<longleftrightarrow>
     (\<forall>a a' b. e (a + a') b = e a b + e a' b) \<and> (\<forall>a b b'. e a (b + b') = e a b + e a b')"

section \<open>Data model (core.go)\<close>

text \<open>
  A pointer is \<open>None\<close> (Go's \<open>nil\<close>) or an address: an index into the heap of its type.
  A slice of pointers is a list of pointers.
\<close>

type_synonym ptr = "nat option"

record Params =
  G :: ptr
  G1 :: ptr
  G2 :: ptr
  G3 :: ptr
  H :: "ptr list"
  Pairing :: ptr

record PrivateKey =
  A0 :: ptr
  A1 :: ptr
  B :: "ptr list"

record Ciphertext =
  ct_A :: ptr
  ct_B :: ptr
  ct_C :: ptr

text \<open>
  The \<open>io.Reader\<close> passed as \<open>random\<close> is the list of outcomes its coming reads will have,
  one per call of \<open>rand.Int\<close>: an error, or the number drawn. A reader with nothing left
  fails with \<open>EOF\<close>.
\<close>

datatype io_error = EOF | Read_error nat

datatype panic =
    Depth_exceeded       \<comment> \<open>\<open>panic("Cannot generate key at greater than maximum depth")\<close>\<close>
  | Not_child_of_parent  \<comment> \<open>\<open>panic("Trying to generate key at depth that is not the child of the provided parent")\<close>\<close>
  | Index_out_of_range   \<comment> \<open>run-time panic of a slice access\<close>
  | Nil_dereference      \<comment> \<open>run-time panic of a nil pointer access\<close>
  | Makeslice_len        \<comment> \<open>run-time panic of \<open>make\<close> with a negative length\<close>

datatype failure =
    Error io_error   \<comment> \<open>a non-nil \<open>error\<close> result, returned to the caller\<close>
  | Panic panic      \<comment> \<open>abrupt termination; nothing is returned\<close>

text \<open>
  The store: one heap per group (a cell is \<open>None\<close> while its element has no point yet,
  as after \<open>new(bn256.G1)\<close>), the heap of \<open>Params\<close> structs, and the reader.
\<close>

record ('a, 'b, 'c) store =
  heap_G1 :: "'a option list"
  heap_G2 :: "'b option list"
  heap_GT :: "'c option list"
  heap_Params :: "Params list"
  reader :: "(io_error + nat) list"

type_synonym ('s, 'r) prog = "'s \<Rightarrow> (failure + 'r) \<times> 's"

definition return :: "'r \<Rightarrow> ('s, 'r) prog" where
  "return x = (\<lambda>s. (Inr x, s))"

definition throw :: "failure \<Rightarrow> ('s, 'r) prog" where
  "throw f = (\<lambda>s. (Inl f, s))"

definition bind_p :: "('s, 'q) prog \<Rightarrow> ('q \<Rightarrow> ('s, 'r) prog) \<Rightarrow> ('s, 'r) prog" where
  "bind_p m f = (\<lambda>s. case m s of (Inl e, s') \<Rightarrow> (Inl e, s') | (Inr x, s') \<Rightarrow> f x s')"

text \<open>\<open>for i := ...\<close> over the indices \<open>is\<close>, threading the local variable \<open>v\<close>.\<close>

primrec for_loop :: "nat list \<Rightarrow> (nat \<Rightarrow> 'v \<Rightarrow> ('s, 'v) prog) \<Rightarrow> 'v \<Rightarrow> ('s, 'v) prog" where
  "for_loop [] body v = return v"
| "for_loop (i # is) body v = bind_p (body i v) (for_loop is body)"

text \<open>A slice access \<open>xs[i]\<close> with a Go \<open>int\<close> index.\<close>

definition index :: "'x list \<Rightarrow> int \<Rightarrow> ('s, 'x) prog" where
  "index xs i = (if 0 \<le> i \<and> i < int (length xs) then return (xs ! nat i)
                 else throw (Panic Index_out_of_range))"

text \<open>The element a pointer points to, if it points to one.\<close>

definition load :: "'x option list \<Rightarrow> ptr \<Rightarrow> 'x option" where
  "load h p = (case p of None \<Rightarrow> None | Some a \<Rightarrow> if a < length h then h ! a else None)"

definition allocated :: "'x list \<Rightarrow> ptr \<Rightarrow> bool" where
  "allocated h p = (case p of None \<Rightarrow> False | Some a \<Rightarrow> a < length h)"

subsection \<open>Reading the random source\<close>

text \<open>\<open>rand.Int(random, bn256.Order)\<close>: one read, a number below the order.\<close>

definition rand_Int :: "('a, 'b, 'c) bn256 \<Rightarrow> (('a, 'b, 'c) store, nat) prog" where
  "rand_Int bn = (\<lambda>s. case reader s of
       [] \<Rightarrow> (Inl (Error EOF), s)
     | Inl e # ds \<Rightarrow> (Inl (Error e), s\<lparr>reader := ds\<rparr>)
     | Inr n # ds \<Rightarrow> (Inr (n mod Order bn), s\<lparr>reader := ds\<rparr>))"

text \<open>
  The loop of \<open>bn256.RandomG1\<close> and \<open>bn256.RandomG2\<close>: read until the number is not
  zero; an error ends it.
\<close>

fun random_nonzero :: "nat \<Rightarrow> (io_error + nat) list \<Rightarrow> (failure + nat) \<times> (io_error + nat) list" where
  "random_nonzero ord [] = (Inl (Error EOF), [])"
| "random_nonzero ord (Inl e # ds) = (Inl (Error e), ds)"
| "random_nonzero ord (Inr n # ds) =
     (if 0 < n mod ord then (Inr (n mod ord), ds) else random_nonzero ord ds)"

definition randomK :: "('a, 'b, 'c) bn256 \<Rightarrow> (('a, 'b, 'c) store, nat) prog" where
  "randomK bn = (\<lambda>s. case random_nonzero (Order bn) (reader s) of
       (r, ds) \<Rightarrow> (r, s\<lparr>reader := ds\<rparr>))"

subsection \<open>The operations of package bn256 on the store\<close>

definition new_G1 :: "(('a, 'b, 'c) store, ptr) prog" where
  "new_G1 = (\<lambda>s. (Inr (Some (length (heap_G1 s))), s\<lparr>heap_G1 := heap_G1 s @ [None]\<rparr>))"

definition new_G2 :: "(('a, 'b, 'c) store, ptr) prog" where
  "new_G2 = (\<lambda>s. (Inr (Some (length (heap_G2 s))), s\<lparr>heap_G2 := heap_G2 s @ [None]\<rparr>))"

definition new_GT :: "(('a, 'b, 'c) store, ptr) prog" where
  "new_GT = (\<lambda>s. (Inr (Some (length (heap_GT s))), s\<lparr>heap_GT := heap_GT s @ [None]\<rparr>))"

text \<open>Setting the element of the receiver \<open>e\<close>; the methods return the receiver.\<close>

definition set_G1 :: "ptr \<Rightarrow> 'a \<Rightarrow> (('a, 'b, 'c) store, ptr) prog" where
  "set_G1 e v = (\<lambda>s. case e of
       None \<Rightarrow> (Inl (Panic Nil_dereference), s)
     | Some a \<Rightarrow> if a < length (heap_G1 s)
                 then (Inr e, s\<lparr>heap_G1 := (heap_G1 s)[a := Some v]\<rparr>)
                 else (Inl (Panic Nil_dereference), s))"

definition set_G2 :: "ptr \<Rightarrow> 'b \<Rightarrow> (('a, 'b, 'c) store, ptr) prog" where
  "set_G2 e v = (\<lambda>s. case e of
       None \<Rightarrow> (Inl (Panic Nil_dereference), s)
     | Some a \<Rightarrow> if a < length (heap_G2 s)
                 then (Inr e, s\<lparr>heap_G2 := (heap_G2 s)[a := Some v]\<rparr>)
                 else (Inl (Panic Nil_dereference), s))"

definition set_GT :: "ptr \<Rightarrow> 'c \<Rightarrow> (('a, 'b, 'c) store, ptr) prog" where
  "set_GT e v = (\<lambda>s. case e of
       None \<Rightarrow> (Inl (Panic Nil_dereference), s)
     | Some a \<Rightarrow> if a < length (heap_GT s)
                 then (Inr e, s\<lparr>heap_GT := (heap_GT s)[a := Some v]\<rparr>)
                 else (Inl (Panic Nil_dereference), s))"

definition get_G1 :: "ptr \<Rightarrow> (('a, 'b, 'c) store, 'a) prog" where
  "get_G1 p = (\<lambda>s. case load (heap_G1 s) p of
       None \<Rightarrow> (Inl (Panic Nil_dereference), s) | Some v \<Rightarrow> (Inr v, s))"

definition get_G2 :: "ptr \<Rightarrow> (('a, 'b, 'c) store, 'b) prog" where
  "get_G2 p = (\<lambda>s. case load (heap_G2 s) p of
       None \<Rightarrow> (Inl (Panic Nil_dereference), s) | Some v \<Rightarrow> (Inr v, s))"

definition get_GT :: "ptr \<Rightarrow> (('a, 'b, 'c) store, 'c) prog" where
  "get_GT p = (\<lambda>s. case load (heap_GT s) p of
       None \<Rightarrow> (Inl (Panic Nil_dereference), s) | Some v \<Rightarrow> (Inr v, s))"

text \<open>\<open>e.ScalarMult(a, k)\<close>, \<open>e.Add(a, b)\<close>, \<open>e.Neg(a)\<close>: the operands are read, then \<open>e\<close> is set.\<close>

definition G1_ScalarMult :: "ptr \<Rightarrow> ptr \<Rightarrow> nat \<Rightarrow> (('a::ab_group_add, 'b, 'c) store, ptr) prog" where
  "G1_ScalarMult e a k = bind_p (get_G1 a) (\<lambda>v. set_G1 e (smul v k))"

definition G1_Add :: "ptr \<Rightarrow> ptr \<Rightarrow> ptr \<Rightarrow> (('a::ab_group_add, 'b, 'c) store, ptr) prog" where
  "G1_Add e a b = bind_p (get_G1 a) (\<lambda>v. bind_p (get_G1 b) (\<lambda>w. set_G1 e (v + w)))"

definition G2_ScalarMult :: "ptr \<Rightarrow> ptr \<Rightarrow> nat \<Rightarrow> (('a, 'b::ab_group_add, 'c) store, ptr) prog" where
  "G2_ScalarMult e a k = bind_p (get_G2 a) (\<lambda>v. set_G2 e (smul v k))"

definition G2_Add :: "ptr \<Rightarrow> ptr \<Rightarrow> ptr \<Rightarrow> (('a, 'b::ab_group_add, 'c) store, ptr) prog" where
  "G2_Add e a b = bind_p (get_G2 a) (\<lambda>v. bind_p (get_G2 b) (\<lambda>w. set_G2 e (v + w)))"

definition GT_ScalarMult :: "ptr \<Rightarrow> ptr \<Rightarrow> nat \<Rightarrow> (('a, 'b, 'c::ab_group_add) store, ptr) prog" where
  "GT_ScalarMult e a k = bind_p (get_GT a) (\<lambda>v. set_GT e (smul v k))"

definition GT_Add :: "ptr \<Rightarrow> ptr \<Rightarrow> ptr \<Rightarrow> (('a, 'b, 'c::ab_group_add) store, ptr) prog" where
  "GT_Add e a b = bind_p (get_GT a) (\<lambda>v. bind_p (get_GT b) (\<lambda>w. set_GT e (v + w)))"

definition GT_Neg :: "ptr \<Rightarrow> ptr \<Rightarrow> (('a, 'b, 'c::ab_group_add) store, ptr) prog" where
  "GT_Neg e a = bind_p (get_GT a) (\<lambda>v. set_GT e (- v))"

text \<open>\<open>bn256.Pair(g1, g2)\<close> returns a new element of \<open>GT\<close>.\<close>

definition Pair :: "('a, 'b, 'c) bn256 \<Rightarrow> ptr \<Rightarrow> ptr \<Rightarrow> (('a, 'b, 'c) store, ptr) prog" where
  "Pair bn g1 g2 =
     bind_p (get_G1 g1) (\<lambda>v. bind_p (get_G2 g2) (\<lambda>w.
     bind_p new_GT (\<lambda>e. set_GT e (Pairing_of bn v w))))"

text \<open>
  \<open>bn256.RandomG1(r)\<close> and \<open>bn256.RandomG2(r)\<close>: a non-zero random \<open>k\<close> and the new
  element \<open>k\<close> times the base point (the \<open>k\<close> is dropped by every caller in core.go).
\<close>

definition RandomG1 :: "('a::ab_group_add, 'b, 'c) bn256 \<Rightarrow> (('a, 'b, 'c) store, ptr) prog" where
  "RandomG1 bn = bind_p (randomK bn) (\<lambda>k. bind_p new_G1 (\<lambda>e. set_G1 e (smul (Base1 bn) k)))"

definition RandomG2 :: "('a, 'b::ab_group_add, 'c) bn256 \<Rightarrow> (('a, 'b, 'c) store, ptr) prog" where
  "RandomG2 bn = bind_p (randomK bn) (\<lambda>k. bind_p new_G2 (\<lambda>e. set_G2 e (smul (Base2 bn) k)))"

subsection \<open>Element utility\<close>

text \<open>
  Modelled from the spec: \<open>deepClone\<close> is called by core.go and tested by util_test.go, but
  its file is not among the sources. The spec has it as the "safe, aliasing-free
  duplication of group elements": a new element of \<open>G1\<close> with the value of its argument.
\<close>

definition deepClone :: "ptr \<Rightarrow> (('a, 'b, 'c) store, ptr) prog" where
  "deepClone g = bind_p (get_G1 g) (\<lambda>v. bind_p new_G1 (\<lambda>e. set_G1 e v))"

subsection \<open>Access to a \<open>Params\<close> struct through its pointer\<close>

definition get_Params :: "ptr \<Rightarrow> (Params \<Rightarrow> 'x) \<Rightarrow> (('a, 'b, 'c) store, 'x) prog" where
  "get_Params p field = (\<lambda>s. case p of
       None \<Rightarrow> (Inl (Panic Nil_dereference), s)
     | Some a \<Rightarrow> if a < length (heap_Params s) then (Inr (field (heap_Params s ! a)), s)
                 else (Inl (Panic Nil_dereference), s))"

definition set_Params :: "ptr \<Rightarrow> (Params \<Rightarrow> Params) \<Rightarrow> (('a, 'b, 'c) store, unit) prog" where
  "set_Params p upd = (\<lambda>s. case p of
       None \<Rightarrow> (Inl (Panic Nil_dereference), s)
     | Some a \<Rightarrow> if a < length (heap_Params s)
                 then (Inr (), s\<lparr>heap_Params := (heap_Params s)[a := upd (heap_Params s ! a)]\<rparr>)
                 else (Inl (Panic Nil_dereference), s))"

text \<open>\<open>&Params{}\<close>: a new struct, every field zero.\<close>

definition new_Params :: "(('a, 'b, 'c) store, ptr) prog" where
  "new_Params = (\<lambda>s. (Inr (Some (length (heap_Params s))),
     s\<lparr>heap_Params := heap_Params s @
        [\<lparr>G = None, G1 = None, G2 = None, G3 = None, H = [], Pairing = None\<rparr>]\<rparr>))"

section \<open>The operations of core.go\<close>

definition MaximumDepth :: "ptr \<Rightarrow> (('a, 'b, 'c) store, nat) prog" where
  "MaximumDepth params = get_Params params (\<lambda>prm. length (H prm))"

definition DepthLeft :: "PrivateKey \<Rightarrow> nat" where
  "DepthLeft privkey = length (B privkey)"

text \<open>
  \<open>Setup\<close>. An assignment \<open>_, params.X, err = bn256.RandomG1(random)\<close> followed by the
  return on \<open>err != nil\<close> is the bind: on an error the value assigned is \<open>nil\<close>, which the
  field holds already.
\<close>

definition Setup ::
  "('a::ab_group_add, 'b::ab_group_add, 'c) bn256 \<Rightarrow> int \<Rightarrow> (('a, 'b, 'c) store, ptr \<times> ptr) prog" where
  "Setup bn l =
     bind_p new_Params (\<lambda>params.
     bind_p (RandomG2 bn) (\<lambda>g.
     bind_p (set_Params params (\<lambda>prm. prm\<lparr>G := g\<rparr>)) (\<lambda>_.
     bind_p (rand_Int bn) (\<lambda>alpha.
     bind_p new_G2 (\<lambda>e.
     bind_p (get_Params params G) (\<lambda>pg.
     bind_p (G2_ScalarMult e pg alpha) (\<lambda>g1.
     bind_p (set_Params params (\<lambda>prm. prm\<lparr>G1 := g1\<rparr>)) (\<lambda>_.
     bind_p (RandomG1 bn) (\<lambda>g2.
     bind_p (set_Params params (\<lambda>prm. prm\<lparr>G2 := g2\<rparr>)) (\<lambda>_.
     bind_p (RandomG1 bn) (\<lambda>g3.
     bind_p (set_Params params (\<lambda>prm. prm\<lparr>G3 := g3\<rparr>)) (\<lambda>_.
     bind_p (if l < 0 then throw (Panic Makeslice_len)
             else set_Params params (\<lambda>prm. prm\<lparr>H := replicate (nat l) None\<rparr>)) (\<lambda>_.
     bind_p (get_Params params (\<lambda>prm. length (H prm))) (\<lambda>n.
     bind_p (for_loop [0..<n] (\<lambda>i _.
               bind_p (RandomG1 bn) (\<lambda>h.
               set_Params params (\<lambda>prm. prm\<lparr>H := (H prm)[i := h]\<rparr>))) ()) (\<lambda>_.
     bind_p new_G1 (\<lambda>e.
     bind_p (get_Params params G2) (\<lambda>pg2.
     bind_p (G1_ScalarMult e pg2 alpha) (\<lambda>master.
     return (params, master)))))))))))))))))))"

text \<open>
  The accumulation that \<open>KeyGenFromMaster\<close>, \<open>KeyGenFromParent\<close> and \<open>Encrypt\<close> each
  write out in the same words: from the clone of \<open>params.G3\<close>,
  \<open>for i := 0; i != k; i++ { h := new(bn256.G1).ScalarMult(params.H[i], id[i]); acc.Add(acc, h) }\<close>.
\<close>

definition accumulate :: "ptr \<Rightarrow> nat list \<Rightarrow> ptr \<Rightarrow> (('a::ab_group_add, 'b, 'c) store, unit) prog" where
  "accumulate params ids acc =
     for_loop [0..<length ids] (\<lambda>i _.
       bind_p new_G1 (\<lambda>e.
       bind_p (get_Params params H) (\<lambda>hs.
       bind_p (index hs (int i)) (\<lambda>hi.
       bind_p (index ids (int i)) (\<lambda>idi.
       bind_p (G1_ScalarMult e hi idi) (\<lambda>h.
       bind_p (G1_Add acc acc h) (\<lambda>_. return ()))))))) ()"

definition KeyGenFromMaster ::
  "('a::ab_group_add, 'b::ab_group_add, 'c) bn256 \<Rightarrow> ptr \<Rightarrow> ptr \<Rightarrow> nat list \<Rightarrow>
     (('a, 'b, 'c) store, PrivateKey) prog" where
  "KeyGenFromMaster bn params master ids =
     (let k = length ids in
     bind_p (get_Params params (\<lambda>prm. length (H prm))) (\<lambda>l.
     if k > l then throw (Panic Depth_exceeded) else
     bind_p (rand_Int bn) (\<lambda>r.
     bind_p (get_Params params G3) (\<lambda>g3.
     bind_p (deepClone g3) (\<lambda>product.
     bind_p (accumulate params ids product) (\<lambda>_.
     bind_p (G1_ScalarMult product product r) (\<lambda>_.
     bind_p new_G1 (\<lambda>e.
     bind_p (G1_Add e master product) (\<lambda>a0.
     bind_p new_G2 (\<lambda>e.
     bind_p (get_Params params G) (\<lambda>g.
     bind_p (G2_ScalarMult e g r) (\<lambda>a1.
     bind_p (for_loop [0..<l - k] (\<lambda>j bs.
               bind_p new_G1 (\<lambda>e.
               bind_p (get_Params params H) (\<lambda>hs.
               bind_p (index hs (int k + int j)) (\<lambda>h.
               bind_p (G1_ScalarMult e h r) (\<lambda>bj.
               return (bs[j := bj])))))) (replicate (l - k) None)) (\<lambda>bs.
     return \<lparr>A0 = a0, A1 = a1, B = bs\<rparr>)))))))))))))"

definition KeyGenFromParent ::
  "('a::ab_group_add, 'b::ab_group_add, 'c) bn256 \<Rightarrow> ptr \<Rightarrow> PrivateKey \<Rightarrow> nat list \<Rightarrow>
     (('a, 'b, 'c) store, PrivateKey) prog" where
  "KeyGenFromParent bn params parent ids =
     (let k = length ids in
     bind_p (get_Params params (\<lambda>prm. length (H prm))) (\<lambda>l.
     if k > l then throw (Panic Depth_exceeded) else
     if int (DepthLeft parent) \<noteq> int l - int k + 1 then throw (Panic Not_child_of_parent) else
     bind_p (rand_Int bn) (\<lambda>t.
     bind_p (get_Params params G3) (\<lambda>g3.
     bind_p (deepClone g3) (\<lambda>product.
     bind_p (accumulate params ids product) (\<lambda>_.
     bind_p (G1_ScalarMult product product t) (\<lambda>_.
     bind_p new_G1 (\<lambda>e.
     bind_p (index (B parent) 0) (\<lambda>b0.
     bind_p (index ids (int k - 1)) (\<lambda>idk.
     bind_p (G1_ScalarMult e b0 idk) (\<lambda>bpower.
     bind_p new_G1 (\<lambda>e.
     bind_p (G1_Add e (A0 parent) bpower) (\<lambda>a0.
     bind_p (G1_Add a0 a0 product) (\<lambda>_.
     bind_p new_G2 (\<lambda>e.
     bind_p (get_Params params G) (\<lambda>g.
     bind_p (G2_ScalarMult e g t) (\<lambda>a1.
     bind_p (G2_Add a1 (A1 parent) a1) (\<lambda>_.
     bind_p (for_loop [0..<l - k] (\<lambda>j bs.
               bind_p new_G1 (\<lambda>e.
               bind_p (get_Params params H) (\<lambda>hs.
               bind_p (index hs (int k + int j)) (\<lambda>h.
               bind_p (G1_ScalarMult e h t) (\<lambda>bj.
               bind_p (index (B parent) (int j + 1)) (\<lambda>pb.
               bind_p (G1_Add bj pb bj) (\<lambda>_.
               return (bs[j := bj])))))))) (replicate (l - k) None)) (\<lambda>bs.
     return \<lparr>A0 = a0, A1 = a1, B = bs\<rparr>)))))))))))))))))))"

definition Precache :: "('a, 'b, 'c) bn256 \<Rightarrow> ptr \<Rightarrow> (('a, 'b, 'c) store, unit) prog" where
  "Precache bn params =
     bind_p (get_Params params Pairing) (\<lambda>pairing.
     if pairing = None then
       bind_p (get_Params params G2) (\<lambda>g2.
       bind_p (get_Params params G1) (\<lambda>g1.
       bind_p (Pair bn g2 g1) (\<lambda>e.
       set_Params params (\<lambda>prm. prm\<lparr>Pairing := e\<rparr>))))
     else return ())"

definition Encrypt ::
  "('a::ab_group_add, 'b::ab_group_add, 'c::ab_group_add) bn256 \<Rightarrow> ptr \<Rightarrow> nat list \<Rightarrow> ptr \<Rightarrow>
     (('a, 'b, 'c) store, Ciphertext) prog" where
  "Encrypt bn params ids message =
     bind_p (rand_Int bn) (\<lambda>s.
     bind_p (get_Params params Pairing) (\<lambda>pairing.
     bind_p (if pairing = None then
               bind_p (get_Params params G2) (\<lambda>g2.
               bind_p (get_Params params G1) (\<lambda>g1.
               bind_p (Pair bn g2 g1) (\<lambda>e.
               set_Params params (\<lambda>prm. prm\<lparr>Pairing := e\<rparr>))))
             else return ()) (\<lambda>_.
     bind_p new_GT (\<lambda>a.
     bind_p (get_Params params Pairing) (\<lambda>pairing.
     bind_p (GT_ScalarMult a pairing s) (\<lambda>_.
     bind_p (GT_Add a a message) (\<lambda>_.
     bind_p new_G2 (\<lambda>e.
     bind_p (get_Params params G) (\<lambda>g.
     bind_p (G2_ScalarMult e g s) (\<lambda>b.
     bind_p (get_Params params G3) (\<lambda>g3.
     bind_p (deepClone g3) (\<lambda>c.
     bind_p (accumulate params ids c) (\<lambda>_.
     bind_p (G1_ScalarMult c c s) (\<lambda>_.
     return \<lparr>ct_A = a, ct_B = b, ct_C = c\<rparr>))))))))))))))"

definition Decrypt ::
  "('a, 'b, 'c::ab_group_add) bn256 \<Rightarrow> PrivateKey \<Rightarrow> Ciphertext \<Rightarrow> (('a, 'b, 'c) store, ptr) prog" where
  "Decrypt bn key ciphertext =
     bind_p (Pair bn (ct_C ciphertext) (A1 key)) (\<lambda>plaintext.
     bind_p new_GT (\<lambda>e.
     bind_p (Pair bn (A0 key) (ct_B ciphertext)) (\<lambda>p.
     bind_p (GT_Neg e p) (\<lambda>invdenominator.
     bind_p (GT_Add plaintext plaintext invdenominator) (\<lambda>_.
     bind_p (GT_Add plaintext (ct_A ciphertext) plaintext) (\<lambda>_.
     return plaintext))))))"

section \<open>Notions the properties are stated with\<close>

text \<open>
  What may change in a \<open>Params\<close> struct that is already there: nothing, or (where the cache
  may be filled) the pairing slot, from \<open>nil\<close> to a pointer.
\<close>

definition same_but_cache :: "Params \<Rightarrow> Params \<Rightarrow> bool" where
  "same_but_cache p p' \<longleftrightarrow>
     G p' = G p \<and> G1 p' = G1 p \<and> G2 p' = G2 p \<and> G3 p' = G3 p \<and> H p' = H p \<and>
     (Pairing p \<noteq> None \<longrightarrow> Pairing p' = Pairing p)"

definition params_kept :: "bool \<Rightarrow> Params \<Rightarrow> Params \<Rightarrow> bool" where
  "params_kept fill p p' \<longleftrightarrow> (if fill then same_but_cache p p' else p' = p)"

text \<open>
  \<open>extends fill s s'\<close>: the store \<open>s'\<close> is \<open>s\<close> with new elements and structs after the
  old ones. Every group element of \<open>s\<close> is where it was with the value it had, and every
  \<open>Params\<close> struct of \<open>s\<close> is kept (up to its cache slot if \<open>fill\<close>). The reader is free.
\<close>

definition extends :: "bool \<Rightarrow> ('a, 'b, 'c) store \<Rightarrow> ('a, 'b, 'c) store \<Rightarrow> bool" where
  "extends fill s s' \<longleftrightarrow>
     prefix (heap_G1 s) (heap_G1 s') \<and> prefix (heap_G2 s) (heap_G2 s') \<and>
     prefix (heap_GT s) (heap_GT s') \<and> length (heap_Params s) \<le> length (heap_Params s') \<and>
     (\<forall>a<length (heap_Params s). params_kept fill (heap_Params s ! a) (heap_Params s' ! a))"

text \<open>
  \<open>keeps I m F\<close>: run from a state where \<open>I\<close> holds, the program \<open>m\<close> ends (with a result
  or a failure) in a state where \<open>I\<close> holds, and a result satisfies \<open>F\<close>.
\<close>

definition keeps :: "('s \<Rightarrow> bool) \<Rightarrow> ('s, 'r) prog \<Rightarrow> ('r \<Rightarrow> bool) \<Rightarrow> bool" where
  "keeps I m F \<longleftrightarrow> (\<forall>s. I s \<longrightarrow> I (snd (m s)) \<and> (\<forall>x. fst (m s) = Inr x \<longrightarrow> F x))"

definition cache_empty :: "('a, 'b, 'c) store \<Rightarrow> ptr \<Rightarrow> bool" where
  "cache_empty s p \<longleftrightarrow>
     (case p of None \<Rightarrow> True
      | Some a \<Rightarrow> a < length (heap_Params s) \<longrightarrow> Pairing (heap_Params s ! a) = None)"

text \<open>
  Parameters a caller can use: the struct is there, and each of its pointers, but for an
  empty cache slot, points to an element.
\<close>

definition readable :: "'x option list \<Rightarrow> ptr \<Rightarrow> bool" where
  "readable h p \<longleftrightarrow> load h p \<noteq> None"

definition valid_Params :: "('a, 'b, 'c) store \<Rightarrow> ptr \<Rightarrow> bool" where
  "valid_Params s params \<longleftrightarrow>
     (case params of None \<Rightarrow> False
      | Some a \<Rightarrow> a < length (heap_Params s) \<and>
          readable (heap_G2 s) (G (heap_Params s ! a)) \<and>
          readable (heap_G2 s) (G1 (heap_Params s ! a)) \<and>
          readable (heap_G1 s) (G2 (heap_Params s ! a)) \<and>
          readable (heap_G1 s) (G3 (heap_Params s ! a)) \<and>
          list_all (readable (heap_G1 s)) (H (heap_Params s ! a)) \<and>
          (Pairing (heap_Params s ! a) = None \<or>
           readable (heap_GT s) (Pairing (heap_Params s ! a))))"

text \<open>The pairing slot of a \<open>Params\<close> struct, the element it points to, and \<open>e(G2, G1)\<close>.\<close>

definition cache_slot :: "('a, 'b, 'c) store \<Rightarrow> ptr \<Rightarrow> ptr" where
  "cache_slot s params =
     (case params of None \<Rightarrow> None
      | Some a \<Rightarrow> if a < length (heap_Params s) then Pairing (heap_Params s ! a) else None)"

definition cache_value :: "('a, 'b, 'c) store \<Rightarrow> ptr \<Rightarrow> 'c option" where
  "cache_value s params = load (heap_GT s) (cache_slot s params)"

definition pairing_value :: "('a, 'b, 'c) bn256 \<Rightarrow> ('a, 'b, 'c) store \<Rightarrow> ptr \<Rightarrow> 'c option" where
  "pairing_value bn s params =
     (case params of None \<Rightarrow> None
      | Some a \<Rightarrow>
          (case (load (heap_G1 s) (G2 (heap_Params s ! a)), load (heap_G2 s) (G1 (heap_Params s ! a))) of
             (Some g2, Some g1) \<Rightarrow> Some (Pairing_of bn g2 g1)
           | _ \<Rightarrow> None))"

text \<open>
  The values behind parameters, a key and a ciphertext. \<open>params_vals\<close>: the elements
  \<open>g\<close>, \<open>g1\<close>, \<open>g2\<close>, \<open>g3\<close>, \<open>h_1 \<dots> h_l\<close> the struct points to. \<open>key_for\<close>: the key of
  the scheme for the identity \<open>ids\<close> with randomizer \<open>r\<close>, that is
  \<open>A0 = master + r (g3 + \<Sum> id_i h_i)\<close>, \<open>A1 = r g\<close>, \<open>B[j] = r h_(k+j)\<close>. \<open>ct_for\<close>: the
  ciphertext of \<open>m\<close> for \<open>ids\<close> with exponent \<open>t\<close>.
\<close>

definition id_point :: "'a::ab_group_add \<Rightarrow> (nat \<Rightarrow> 'a) \<Rightarrow> nat list \<Rightarrow> 'a" where
  "id_point g3 hv ids = g3 + (\<Sum>i<length ids. smul (hv i) (ids ! i))"

definition params_vals ::
  "('a, 'b, 'c) store \<Rightarrow> ptr \<Rightarrow> 'b \<Rightarrow> 'b \<Rightarrow> 'a \<Rightarrow> 'a \<Rightarrow> (nat \<Rightarrow> 'a) \<Rightarrow> nat \<Rightarrow> bool" where
  "params_vals s params g g1 g2 g3 hv l \<longleftrightarrow>
     (\<exists>a. params = Some a \<and> a < length (heap_Params s) \<and>
        length (H (heap_Params s ! a)) = l \<and>
        load (heap_G2 s) (G (heap_Params s ! a)) = Some g \<and>
        load (heap_G2 s) (G1 (heap_Params s ! a)) = Some g1 \<and>
        load (heap_G1 s) (G2 (heap_Params s ! a)) = Some g2 \<and>
        load (heap_G1 s) (G3 (heap_Params s ! a)) = Some g3 \<and>
        (\<forall>i<l. load (heap_G1 s) (H (heap_Params s ! a) ! i) = Some (hv i)))"

definition key_for ::
  "('a::ab_group_add, 'b::ab_group_add, 'c) store \<Rightarrow> 'a \<Rightarrow> 'b \<Rightarrow> 'a \<Rightarrow> (nat \<Rightarrow> 'a) \<Rightarrow> nat \<Rightarrow>
     nat list \<Rightarrow> nat \<Rightarrow> PrivateKey \<Rightarrow> bool" where
  "key_for s mk g g3 hv l ids r key \<longleftrightarrow>
     load (heap_G1 s) (A0 key) = Some (mk + smul (id_point g3 hv ids) r) \<and>
     load (heap_G2 s) (A1 key) = Some (smul g r) \<and>
     length (B key) = l - length ids \<and>
     (\<forall>j<l - length ids. load (heap_G1 s) (B key ! j) = Some (smul (hv (length ids + j)) r))"

definition ct_for ::
  "('a::ab_group_add, 'b::ab_group_add, 'c::ab_group_add) store \<Rightarrow> 'c \<Rightarrow> 'b \<Rightarrow> 'a \<Rightarrow> (nat \<Rightarrow> 'a) \<Rightarrow>
     nat list \<Rightarrow> nat \<Rightarrow> 'c \<Rightarrow> Ciphertext \<Rightarrow> bool" where
  "ct_for s pv g g3 hv ids t m ct \<longleftrightarrow>
     load (heap_GT s) (ct_A ct) = Some (smul pv t + m) \<and>
     load (heap_G2 s) (ct_B ct) = Some (smul g t) \<and>
     load (heap_G1 s) (ct_C ct) = Some (smul (id_point g3 hv ids) t)"

text \<open>
  The chain of the delegation property: the root key from \<open>KeyGenFromMaster\<close> for the
  empty path, then one \<open>KeyGenFromParent\<close> for each longer prefix of the identity.
\<close>

primrec delegate ::
  "('a::ab_group_add, 'b::ab_group_add, 'c) bn256 \<Rightarrow> ptr \<Rightarrow> nat list \<Rightarrow> nat list \<Rightarrow> PrivateKey \<Rightarrow>
     (('a, 'b, 'c) store, PrivateKey) prog" where
  "delegate bn params path [] key = return key"
| "delegate bn params path (x # xs) key =
     bind_p (KeyGenFromParent bn params key (path @ [x])) (delegate bn params (path @ [x]) xs)"

definition KeyGenByDelegation ::
  "('a::ab_group_add, 'b::ab_group_add, 'c) bn256 \<Rightarrow> ptr \<Rightarrow> ptr \<Rightarrow> nat list \<Rightarrow>
     (('a, 'b, 'c) store, PrivateKey) prog" where
  "KeyGenByDelegation bn params master ids =
     bind_p (KeyGenFromMaster bn params master []) (delegate bn params [] ids)"

text \<open>A result that is a non-nil \<open>error\<close> value (and not a panic).\<close>

definition returns_error :: "failure + 'r \<Rightarrow> bool" where
  "returns_error r \<longleftrightarrow> (case r of Inl (Error e) \<Rightarrow> True | _ \<Rightarrow> False)"

subsection \<open>Reads of the random source\<close>

text \<open>
  The error the next read of the reader ends in, if it fails, and the store once that read
  is done.
\<close>

definition read_error :: "('a, 'b, 'c) store \<Rightarrow> io_error option" where
  "read_error s = (case reader s of [] \<Rightarrow> Some EOF | Inl e # ds \<Rightarrow> Some e | Inr n # ds \<Rightarrow> None)"

definition after_read :: "('a, 'b, 'c) store \<Rightarrow> ('a, 'b, 'c) store" where
  "after_read s = s\<lparr>reader := tl (reader s)\<rparr>"

definition read_ok :: "io_error + nat \<Rightarrow> bool" where
  "read_ok x \<longleftrightarrow> (case x of Inl e \<Rightarrow> False | Inr n \<Rightarrow> True)"

text \<open>
  \<open>reads_end u r ds'\<close>: a run that made the reads \<open>u\<close>, ended in \<open>r\<close> and left \<open>ds'\<close> in the
  reader. The run ends in the error \<open>e\<close> when its last read failed with \<open>e\<close>, or found the
  reader empty; every read before that succeeded. A run that ends in anything else had
  no read fail.
\<close>

definition reads_end :: "(io_error + nat) list \<Rightarrow> failure + 'r \<Rightarrow> (io_error + nat) list \<Rightarrow> bool" where
  "reads_end u r ds' \<longleftrightarrow>
     (case r of
        Inl (Error e) \<Rightarrow>
          (u \<noteq> [] \<and> last u = Inl e \<and> list_all read_ok (butlast u)) \<or>
          (e = EOF \<and> ds' = [] \<and> list_all read_ok u)
      | _ \<Rightarrow> list_all read_ok u)"

text \<open>\<open>read_trace ds r ds'\<close>: from the reader \<open>ds\<close> the run read what is before \<open>ds'\<close>.\<close>

definition read_trace :: "(io_error + nat) list \<Rightarrow> failure + 'r \<Rightarrow> (io_error + nat) list \<Rightarrow> bool" where
  "read_trace ds r ds' \<longleftrightarrow>
     length ds' \<le> length ds \<and> drop (length ds - length ds') ds = ds' \<and>
     reads_end (take (length ds - length ds') ds) r ds'"

definition sound_reads :: "(('a, 'b, 'c) store, 'r) prog \<Rightarrow> bool" where
  "sound_reads m \<longleftrightarrow> (\<forall>s. read_trace (reader s) (fst (m s)) (reader (snd (m s))))"

text \<open>
  The reads of \<open>Setup\<close>, by the spec: it samples \<open>g\<close>, then the scalar \<open>alpha\<close>, then \<open>g2\<close>
  and \<open>g3\<close>, then \<open>h_1 .. h_l\<close>. An element is sampled by a non-zero draw (the loop of
  \<open>random_nonzero\<close>), the scalar by one read. \<open>draws ord n ds\<close> makes \<open>n\<close> non-zero draws in
  a row from the reader \<open>ds\<close>; \<open>Setup_reads ord l ds\<close> makes the reads of \<open>Setup\<close>. Each gives
  the first failure (an empty reader fails with \<open>EOF\<close>) or \<open>Inr ()\<close>, and the reader that is
  left.
\<close>

primrec draws :: "nat \<Rightarrow> nat \<Rightarrow> (io_error + nat) list \<Rightarrow> (failure + unit) \<times> (io_error + nat) list" where
  "draws ord 0 ds = (Inr (), ds)"
| "draws ord (Suc n) ds =
     (case random_nonzero ord ds of
        (Inl f, d) \<Rightarrow> (Inl f, d)
      | (Inr k, d) \<Rightarrow> draws ord n d)"

definition Setup_reads ::
  "nat \<Rightarrow> int \<Rightarrow> (io_error + nat) list \<Rightarrow> (failure + unit) \<times> (io_error + nat) list" where
  "Setup_reads ord l ds =
     (case random_nonzero ord ds of
        (Inl f, d) \<Rightarrow> (Inl f, d)
      | (Inr g, d) \<Rightarrow>
          (case d of
             [] \<Rightarrow> (Inl (Error EOF), [])
           | Inl e # d' \<Rightarrow> (Inl (Error e), d')
           | Inr alpha # d' \<Rightarrow> draws ord (2 + nat l) d'))"

subsection \<open>A small instance\<close>

text \<open>
  The integers as all three groups, with multiplication as the pairing: a reader with a few
  numbers, a message in \<open>GT\<close>, and the store a \<open>Setup\<close> with \<open>l = 2\<close> leaves from it.
\<close>

definition toy_bn :: "(int, int, int) bn256" where
  "toy_bn = \<lparr>Order = 101, Base1 = 1, Base2 = 1, Pairing_of = (\<lambda>a b. a * b)\<rparr>"

definition toy_init :: "(int, int, int) store" where
  "toy_init = \<lparr>heap_G1 = [], heap_G2 = [], heap_GT = [Some 42], heap_Params = [],
     reader = [Inr 5, Inr 7, Inr 0, Inr 11, Inr 13, Inr 17, Inr 19, Inr 23, Inr 29, Inr 31,
               Inr 37, Inr 41, Inr 43]\<rparr>"

definition toy_store :: "(int, int, int) store" where
  "toy_store = \<lparr>heap_G1 = [Some 11, Some 13, Some 17, Some 19, Some 77],
     heap_G2 = [Some 5, Some 35], heap_GT = [Some 42],
     heap_Params = [\<lparr>G = Some 0, G1 = Some 1, G2 = Some 0, G3 = Some 1,
                      H = [Some 2, Some 3], Pairing = None\<rparr>],
     reader = [Inr 23, Inr 29, Inr 31, Inr 37, Inr 41, Inr 43]\<rparr>"

text \<open>The store after \<open>Precache\<close> on \<open>toy_store\<close>: the cache holds \<open>e(G2, G1) = 11 * 35\<close>.\<close>

definition toy_cached :: "(int, int, int) store" where
  "toy_cached = \<lparr>heap_G1 = [Some 11, Some 13, Some 17, Some 19, Some 77],
     heap_G2 = [Some 5, Some 35], heap_GT = [Some 42, Some 385],
     heap_Params = [\<lparr>G = Some 0, G1 = Some 1, G2 = Some 0, G3 = Some 1,
                      H = [Some 2, Some 3], Pairing = Some 1\<rparr>],
     reader = [Inr 23, Inr 29, Inr 31, Inr 37, Inr 41, Inr 43]\<rparr>"

text \<open>The same stores with a reader that breaks: at its first read, and at the fourth.\<close>

definition toy_broken :: "(int, int, int) store" where
  "toy_broken = toy_store\<lparr>reader := [Inl (Read_error 1), Inr 5]\<rparr>"

definition toy_init_broken :: "(int, int, int) store" where
  "toy_init_broken = toy_init\<lparr>reader := [Inr 5, Inr 7, Inr 0, Inl (Read_error 1), Inr 13]\<rparr>"

text \<open>The initial store with a reader that runs out at the second read.\<close>

definition toy_init_short :: "(int, int, int) store" where
  "toy_init_short = toy_init\<lparr>reader := [Inr 5]\<rparr>"

section \<open>Scalar multiplication and the pairing\<close>

lemma smul_add_left: "smul (a + b) k = smul a k + smul b k"
  by (induction k) (simp_all add: algebra_simps)

lemma smul_add_right: "smul a (j + k) = smul a j + smul a k"
  by (induction j) (simp_all add: algebra_simps)

lemma smul_smul: "smul (smul a j) k = smul a (j * k)"
  by (induction k) (simp_all add: smul_add_right)

lemma smul_zero: "smul 0 k = 0"
  by (induction k) simp_all

lemma smul_sum: "smul (sum f A) k = (\<Sum>i\<in>A. smul (f i) k)"
  by (induction A rule: infinite_finite_induct) (simp_all add: smul_zero smul_add_left)

lemma bilinear_zero_left: "bilinear e \<Longrightarrow> e 0 b = 0"
proof -
  assume "bilinear e"
  then have "e (0 + 0) b = e 0 b + e 0 b" unfolding bilinear_def by blast
  then show ?thesis by simp
qed

lemma bilinear_zero_right: "bilinear e \<Longrightarrow> e a 0 = 0"
proof -
  assume "bilinear e"
  then have "e a (0 + 0) = e a 0 + e a 0" unfolding bilinear_def by blast
  then show ?thesis by simp
qed

lemma bilinear_smul_left: "bilinear e \<Longrightarrow> e (smul a k) b = smul (e a b) k"
  by (induction k) (simp_all add: bilinear_zero_left, simp add: bilinear_def)

lemma bilinear_smul_right: "bilinear e \<Longrightarrow> e a (smul b k) = smul (e a b) k"
  by (induction k) (simp_all add: bilinear_zero_right, simp add: bilinear_def)

lemma smul_int: "smul (a::int) k = a * int k"
  by (induction k) (simp_all add: algebra_simps)

lemma bilinear_mult: "bilinear (\<lambda>a b. a * b :: int)"
  by (simp add: bilinear_def algebra_simps)

text \<open>The cancellation behind decryption.\<close>

lemma decrypt_algebra:
  assumes "bilinear e"
  shows "(smul (e g2 (smul g alpha)) s + m)
           + (e (smul p s) (smul g r) + - e (smul g2 alpha + smul p r) (smul g s)) = m"
proof -
  have l: "\<And>a a' b. e (a + a') b = e a b + e a' b"
    using assms unfolding bilinear_def by blast
  show ?thesis
    by (simp add: l bilinear_smul_left [OF assms] bilinear_smul_right [OF assms]
          smul_smul smul_add_left mult.commute)
qed

lemma bind_p_app: "bind_p m f s = (case m s of (Inl e, s') \<Rightarrow> (Inl e, s') | (Inr x, s') \<Rightarrow> f x s')"
  by (simp add: bind_p_def)

lemma bind_p_Inr: "m s = (Inr x, s') \<Longrightarrow> bind_p m f s = f x s'"
  by (simp add: bind_p_def)

lemma bind_p_Inl: "m s = (Inl e, s') \<Longrightarrow> bind_p m f s = (Inl e, s')"
  by (simp add: bind_p_def)

lemma return_app: "return x s = (Inr x, s)"
  by (simp add: return_def)

lemma throw_app: "throw f s = (Inl f, s)"
  by (simp add: throw_def)

lemma for_loop_append:
  "for_loop (xs @ ys) body v = bind_p (for_loop xs body v) (for_loop ys body)"
proof (induction xs arbitrary: v)
  case Nil
  show ?case by (rule ext) (simp add: bind_p_app return_app)
next
  case (Cons x xs)
  show ?case
    by (rule ext) (simp add: Cons bind_p_app split: prod.splits sum.splits)
qed

lemma for_loop_Suc:
  "for_loop [0..<Suc k] body v = bind_p (for_loop [0..<k] body v) (body k)"
proof -
  have "for_loop [k] body = body k"
    by (rule ext, rule ext) (simp add: bind_p_app return_app split: prod.splits sum.splits)
  then show ?thesis by (simp add: for_loop_append)
qed

lemma load_Some: "load h (Some a) = (if a < length h then h ! a else None)"
  by (simp add: load_def)

lemma load_None: "load h None = None"
  by (simp add: load_def)

lemma index_app:
  "index xs i s = (if 0 \<le> i \<and> i < int (length xs) then (Inr (xs ! nat i), s)
                   else (Inl (Panic Index_out_of_range), s))"
  by (simp add: index_def return_def throw_def)

lemma rand_Int_app:
  "rand_Int bn s = (case reader s of
       [] \<Rightarrow> (Inl (Error EOF), s)
     | Inl e # ds \<Rightarrow> (Inl (Error e), s\<lparr>reader := ds\<rparr>)
     | Inr n # ds \<Rightarrow> (Inr (n mod Order bn), s\<lparr>reader := ds\<rparr>))"
  by (simp add: rand_Int_def)

lemma randomK_app:
  "randomK bn s = (case random_nonzero (Order bn) (reader s) of (r, ds) \<Rightarrow> (r, s\<lparr>reader := ds\<rparr>))"
  by (simp add: randomK_def)

lemma new_G1_app: "new_G1 s = (Inr (Some (length (heap_G1 s))), s\<lparr>heap_G1 := heap_G1 s @ [None]\<rparr>)"
  by (simp add: new_G1_def)

lemma new_G2_app: "new_G2 s = (Inr (Some (length (heap_G2 s))), s\<lparr>heap_G2 := heap_G2 s @ [None]\<rparr>)"
  by (simp add: new_G2_def)

lemma new_GT_app: "new_GT s = (Inr (Some (length (heap_GT s))), s\<lparr>heap_GT := heap_GT s @ [None]\<rparr>)"
  by (simp add: new_GT_def)

lemma set_G1_app:
  "set_G1 e v s = (case e of
       None \<Rightarrow> (Inl (Panic Nil_dereference), s)
     | Some a \<Rightarrow> if a < length (heap_G1 s)
                 then (Inr e, s\<lparr>heap_G1 := (heap_G1 s)[a := Some v]\<rparr>)
                 else (Inl (Panic Nil_dereference), s))"
  by (simp add: set_G1_def)

lemma set_G2_app:
  "set_G2 e v s = (case e of
       None \<Rightarrow> (Inl (Panic Nil_dereference), s)
     | Some a \<Rightarrow> if a < length (heap_G2 s)
                 then (Inr e, s\<lparr>heap_G2 := (heap_G2 s)[a := Some v]\<rparr>)
                 else (Inl (Panic Nil_dereference), s))"
  by (simp add: set_G2_def)

lemma set_GT_app:
  "set_GT e v s = (case e of
       None \<Rightarrow> (Inl (Panic Nil_dereference), s)
     | Some a \<Rightarrow> if a < length (heap_GT s)
                 then (Inr e, s\<lparr>heap_GT := (heap_GT s)[a := Some v]\<rparr>)
                 else (Inl (Panic Nil_dereference), s))"
  by (simp add: set_GT_def)

lemma get_G1_app:
  "get_G1 p s = (case load (heap_G1 s) p of
       None \<Rightarrow> (Inl (Panic Nil_dereference), s) | Some v \<Rightarrow> (Inr v, s))"
  by (simp add: get_G1_def)

lemma get_G2_app:
  "get_G2 p s = (case load (heap_G2 s) p of
       None \<Rightarrow> (Inl (Panic Nil_dereference), s) | Some v \<Rightarrow> (Inr v, s))"
  by (simp add: get_G2_def)

lemma get_GT_app:
  "get_GT p s = (case load (heap_GT s) p of
       None \<Rightarrow> (Inl (Panic Nil_dereference), s) | Some v \<Rightarrow> (Inr v, s))"
  by (simp add: get_GT_def)

lemma G1_ScalarMult_app:
  "G1_ScalarMult e a k s = (case load (heap_G1 s) a of
       None \<Rightarrow> (Inl (Panic Nil_dereference), s) | Some v \<Rightarrow> set_G1 e (smul v k) s)"
  by (simp add: G1_ScalarMult_def bind_p_def get_G1_def split: option.splits)

lemma G2_ScalarMult_app:
  "G2_ScalarMult e a k s = (case load (heap_G2 s) a of
       None \<Rightarrow> (Inl (Panic Nil_dereference), s) | Some v \<Rightarrow> set_G2 e (smul v k) s)"
  by (simp add: G2_ScalarMult_def bind_p_def get_G2_def split: option.splits)

lemma GT_ScalarMult_app:
  "GT_ScalarMult e a k s = (case load (heap_GT s) a of
       None \<Rightarrow> (Inl (Panic Nil_dereference), s) | Some v \<Rightarrow> set_GT e (smul v k) s)"
  by (simp add: GT_ScalarMult_def bind_p_def get_GT_def split: option.splits)

lemma GT_Neg_app:
  "GT_Neg e a s = (case load (heap_GT s) a of
       None \<Rightarrow> (Inl (Panic Nil_dereference), s) | Some v \<Rightarrow> set_GT e (- v) s)"
  by (simp add: GT_Neg_def bind_p_def get_GT_def split: option.splits)

lemma G1_Add_app:
  "G1_Add e a b s = (case load (heap_G1 s) a of
       None \<Rightarrow> (Inl (Panic Nil_dereference), s)
     | Some v \<Rightarrow> (case load (heap_G1 s) b of
         None \<Rightarrow> (Inl (Panic Nil_dereference), s) | Some w \<Rightarrow> set_G1 e (v + w) s))"
  by (simp add: G1_Add_def bind_p_def get_G1_def split: option.splits)

lemma G2_Add_app:
  "G2_Add e a b s = (case load (heap_G2 s) a of
       None \<Rightarrow> (Inl (Panic Nil_dereference), s)
     | Some v \<Rightarrow> (case load (heap_G2 s) b of
         None \<Rightarrow> (Inl (Panic Nil_dereference), s) | Some w \<Rightarrow> set_G2 e (v + w) s))"
  by (simp add: G2_Add_def bind_p_def get_G2_def split: option.splits)

lemma GT_Add_app:
  "GT_Add e a b s = (case load (heap_GT s) a of
       None \<Rightarrow> (Inl (Panic Nil_dereference), s)
     | Some v \<Rightarrow> (case load (heap_GT s) b of
         None \<Rightarrow> (Inl (Panic Nil_dereference), s) | Some w \<Rightarrow> set_GT e (v + w) s))"
  by (simp add: GT_Add_def bind_p_def get_GT_def split: option.splits)

lemma Pair_app:
  "Pair bn g1 g2 s = (case load (heap_G1 s) g1 of
       None \<Rightarrow> (Inl (Panic Nil_dereference), s)
     | Some v \<Rightarrow> (case load (heap_G2 s) g2 of
         None \<Rightarrow> (Inl (Panic Nil_dereference), s)
       | Some w \<Rightarrow> (Inr (Some (length (heap_GT s))),
                    s\<lparr>heap_GT := heap_GT s @ [Some (Pairing_of bn v w)]\<rparr>)))"
  by (simp add: Pair_def bind_p_def get_G1_def get_G2_def new_GT_def set_GT_def
        split: option.splits)

lemma deepClone_app:
  "deepClone g s = (case load (heap_G1 s) g of
       None \<Rightarrow> (Inl (Panic Nil_dereference), s)
     | Some v \<Rightarrow> (Inr (Some (length (heap_G1 s))), s\<lparr>heap_G1 := heap_G1 s @ [Some v]\<rparr>))"
  by (simp add: deepClone_def bind_p_def get_G1_def new_G1_def set_G1_def split: option.splits)

lemma get_Params_app:
  "get_Params p field s = (case p of
       None \<Rightarrow> (Inl (Panic Nil_dereference), s)
     | Some a \<Rightarrow> if a < length (heap_Params s) then (Inr (field (heap_Params s ! a)), s)
                 else (Inl (Panic Nil_dereference), s))"
  by (simp add: get_Params_def)

lemma set_Params_app:
  "set_Params p upd s = (case p of
       None \<Rightarrow> (Inl (Panic Nil_dereference), s)
     | Some a \<Rightarrow> if a < length (heap_Params s)
                 then (Inr (), s\<lparr>heap_Params := (heap_Params s)[a := upd (heap_Params s ! a)]\<rparr>)
                 else (Inl (Panic Nil_dereference), s))"
  by (simp add: set_Params_def)

lemma new_Params_app:
  "new_Params s = (Inr (Some (length (heap_Params s))),
     s\<lparr>heap_Params := heap_Params s @
        [\<lparr>G = None, G1 = None, G2 = None, G3 = None, H = [], Pairing = None\<rparr>]\<rparr>)"
  by (simp add: new_Params_def)

lemma RandomG1_app:
  "RandomG1 bn s = (case random_nonzero (Order bn) (reader s) of
       (Inl f, ds) \<Rightarrow> (Inl f, s\<lparr>reader := ds\<rparr>)
     | (Inr k, ds) \<Rightarrow> (Inr (Some (length (heap_G1 s))),
         s\<lparr>reader := ds, heap_G1 := heap_G1 s @ [Some (smul (Base1 bn) k)]\<rparr>))"
  by (simp add: RandomG1_def bind_p_def randomK_def new_G1_def set_G1_def
        split: prod.splits sum.splits)

lemma RandomG2_app:
  "RandomG2 bn s = (case random_nonzero (Order bn) (reader s) of
       (Inl f, ds) \<Rightarrow> (Inl f, s\<lparr>reader := ds\<rparr>)
     | (Inr k, ds) \<Rightarrow> (Inr (Some (length (heap_G2 s))),
         s\<lparr>reader := ds, heap_G2 := heap_G2 s @ [Some (smul (Base2 bn) k)]\<rparr>))"
  by (simp add: RandomG2_def bind_p_def randomK_def new_G2_def set_G2_def
        split: prod.splits sum.splits)

lemmas exec =
  bind_p_app return_app throw_app index_app get_Params_app set_Params_app
  new_G1_app new_G2_app new_GT_app set_G1_app set_G2_app set_GT_app
  get_G1_app get_G2_app get_GT_app load_Some load_None
  G1_ScalarMult_app G1_Add_app G2_ScalarMult_app G2_Add_app
  GT_ScalarMult_app GT_Add_app GT_Neg_app Pair_app deepClone_app rand_Int_app
  new_Params_app RandomG1_app RandomG2_app

lemma same_but_cache_refl: "same_but_cache p p"
  by (simp add: same_but_cache_def)

lemma same_but_cache_trans: "same_but_cache p q \<Longrightarrow> same_but_cache q r \<Longrightarrow> same_but_cache p r"
  by (auto simp add: same_but_cache_def)

lemma params_kept_refl: "params_kept fill p p"
  by (simp add: params_kept_def same_but_cache_refl)

lemma params_kept_trans:
  "params_kept fill p q \<Longrightarrow> params_kept fill q r \<Longrightarrow> params_kept fill p r"
  by (auto simp add: params_kept_def same_but_cache_def split: if_splits)

lemma extends_refl: "extends fill s s"
  by (simp add: extends_def params_kept_refl)

lemma extends_trans: "extends fill s t \<Longrightarrow> extends fill t u \<Longrightarrow> extends fill s u"
  unfolding extends_def
  by (meson prefix_order.order_trans order_trans less_le_trans params_kept_trans)

lemma keepsD1: "keeps I m F \<Longrightarrow> I s \<Longrightarrow> I (snd (m s))"
  by (simp add: keeps_def)

lemma keepsD2: "keeps I m F \<Longrightarrow> I s \<Longrightarrow> m s = (Inr x, s') \<Longrightarrow> F x"
  by (simp add: keeps_def)

lemma keeps_return: "F x \<Longrightarrow> keeps I (return x) F"
  by (simp add: keeps_def return_def)

lemma keeps_throw: "keeps I (throw e) F"
  by (simp add: keeps_def throw_def)

lemma keeps_bind:
  assumes "keeps I m F" and "\<And>x. F x \<Longrightarrow> keeps I (f x) F'"
  shows "keeps I (bind_p m f) F'"
  unfolding keeps_def
proof (intro allI impI)
  fix s assume s: "I s"
  obtain r s' where m: "m s = (r, s')" by (cases "m s")
  have s': "I s'" using assms(1) s m by (auto simp add: keeps_def)
  show "I (snd (bind_p m f s)) \<and> (\<forall>x. fst (bind_p m f s) = Inr x \<longrightarrow> F' x)"
  proof (cases r)
    case (Inl e)
    then show ?thesis using m s' by (simp add: bind_p_def)
  next
    case (Inr x)
    then have "F x" using assms(1) s m by (auto simp add: keeps_def)
    then have "keeps I (f x) F'" by (rule assms(2))
    then show ?thesis using m s' Inr by (simp add: bind_p_def keeps_def)
  qed
qed

lemma keeps_weaken: "keeps I m F \<Longrightarrow> (\<And>x. F x \<Longrightarrow> F' x) \<Longrightarrow> keeps I m F'"
  by (simp add: keeps_def)

lemma keeps_if:
  "(c \<Longrightarrow> keeps I m F) \<Longrightarrow> (\<not> c \<Longrightarrow> keeps I m' F) \<Longrightarrow> keeps I (if c then m else m') F"
  by simp

lemma keeps_for_loop:
  assumes "\<And>i v. F v \<Longrightarrow> keeps I (body i v) F"
  shows "F v \<Longrightarrow> keeps I (for_loop is body v) F"
proof (induction "is" arbitrary: v)
  case Nil
  then show ?case by (simp add: keeps_return)
next
  case (Cons i "is")
  show ?case
    unfolding for_loop.simps
    by (rule keeps_bind [OF assms [OF Cons.prems]]) (rule Cons.IH)
qed

lemma keeps_index: "keeps I (index xs i) (\<lambda>_. True)"
  by (simp add: keeps_def index_def return_def throw_def)

text \<open>Steps that leave every heap as it is.\<close>

lemma extends_reader: "extends fill s0 s \<Longrightarrow> extends fill s0 (s\<lparr>reader := ds\<rparr>)"
  by (simp add: extends_def)

lemma keeps_rand_Int: "keeps (extends fill s0) (rand_Int bn) (\<lambda>_. True)"
  by (auto simp add: keeps_def rand_Int_def extends_reader split: list.splits sum.splits)

lemma keeps_randomK: "keeps (extends fill s0) (randomK bn) (\<lambda>_. True)"
  by (auto simp add: keeps_def randomK_def extends_reader split: prod.splits)

lemma keeps_get_G1: "keeps I (get_G1 p) (\<lambda>_. True)"
  by (simp add: keeps_def get_G1_def split: option.splits)

lemma keeps_get_G2: "keeps I (get_G2 p) (\<lambda>_. True)"
  by (simp add: keeps_def get_G2_def split: option.splits)

lemma keeps_get_GT: "keeps I (get_GT p) (\<lambda>_. True)"
  by (simp add: keeps_def get_GT_def split: option.splits)

lemma keeps_get_Params: "keeps I (get_Params p f) (\<lambda>_. True)"
  by (simp add: keeps_def get_Params_def split: option.splits)

text \<open>Allocation and writes to what was allocated since \<open>s0\<close>.\<close>

lemma prefix_snoc_update:
  "prefix xs ys \<Longrightarrow> length xs \<le> a \<Longrightarrow> prefix xs (ys[a := v])"
  by (auto simp add: prefix_def list_update_append)

lemma prefix_snoc: "prefix xs ys \<Longrightarrow> prefix xs (ys @ zs)"
  by (auto simp add: prefix_def)

lemma keeps_new_G1: "keeps (extends fill s0) new_G1 (\<lambda>e. \<not> allocated (heap_G1 s0) e)"
  by (auto simp add: keeps_def new_G1_def extends_def allocated_def prefix_snoc
        dest: prefix_length_le)

lemma keeps_new_G2: "keeps (extends fill s0) new_G2 (\<lambda>e. \<not> allocated (heap_G2 s0) e)"
  by (auto simp add: keeps_def new_G2_def extends_def allocated_def prefix_snoc
        dest: prefix_length_le)

lemma keeps_new_GT: "keeps (extends fill s0) new_GT (\<lambda>e. \<not> allocated (heap_GT s0) e)"
  by (auto simp add: keeps_def new_GT_def extends_def allocated_def prefix_snoc
        dest: prefix_length_le)

lemma keeps_set_G1:
  "\<not> allocated (heap_G1 s0) e \<Longrightarrow> keeps (extends fill s0) (set_G1 e v) (\<lambda>e. \<not> allocated (heap_G1 s0) e)"
  by (auto simp add: keeps_def set_G1_def extends_def allocated_def prefix_snoc_update
        split: option.splits)

lemma keeps_set_G2:
  "\<not> allocated (heap_G2 s0) e \<Longrightarrow> keeps (extends fill s0) (set_G2 e v) (\<lambda>e. \<not> allocated (heap_G2 s0) e)"
  by (auto simp add: keeps_def set_G2_def extends_def allocated_def prefix_snoc_update
        split: option.splits)

lemma keeps_set_GT:
  "\<not> allocated (heap_GT s0) e \<Longrightarrow> keeps (extends fill s0) (set_GT e v) (\<lambda>e. \<not> allocated (heap_GT s0) e)"
  by (auto simp add: keeps_def set_GT_def extends_def allocated_def prefix_snoc_update
        split: option.splits)

lemma keeps_G1_ScalarMult:
  "\<not> allocated (heap_G1 s0) e \<Longrightarrow>
     keeps (extends fill s0) (G1_ScalarMult e a k) (\<lambda>e. \<not> allocated (heap_G1 s0) e)"
  unfolding G1_ScalarMult_def by (rule keeps_bind, rule keeps_get_G1, rule keeps_set_G1)

lemma keeps_G1_Add:
  "\<not> allocated (heap_G1 s0) e \<Longrightarrow>
     keeps (extends fill s0) (G1_Add e a b) (\<lambda>e. \<not> allocated (heap_G1 s0) e)"
  unfolding G1_Add_def
  by (rule keeps_bind, rule keeps_get_G1, rule keeps_bind, rule keeps_get_G1, rule keeps_set_G1)

lemma keeps_G2_ScalarMult:
  "\<not> allocated (heap_G2 s0) e \<Longrightarrow>
     keeps (extends fill s0) (G2_ScalarMult e a k) (\<lambda>e. \<not> allocated (heap_G2 s0) e)"
  unfolding G2_ScalarMult_def by (rule keeps_bind, rule keeps_get_G2, rule keeps_set_G2)

lemma keeps_G2_Add:
  "\<not> allocated (heap_G2 s0) e \<Longrightarrow>
     keeps (extends fill s0) (G2_Add e a b) (\<lambda>e. \<not> allocated (heap_G2 s0) e)"
  unfolding G2_Add_def
  by (rule keeps_bind, rule keeps_get_G2, rule keeps_bind, rule keeps_get_G2, rule keeps_set_G2)

lemma keeps_GT_ScalarMult:
  "\<not> allocated (heap_GT s0) e \<Longrightarrow>
     keeps (extends fill s0) (GT_ScalarMult e a k) (\<lambda>e. \<not> allocated (heap_GT s0) e)"
  unfolding GT_ScalarMult_def by (rule keeps_bind, rule keeps_get_GT, rule keeps_set_GT)

lemma keeps_GT_Add:
  "\<not> allocated (heap_GT s0) e \<Longrightarrow>
     keeps (extends fill s0) (GT_Add e a b) (\<lambda>e. \<not> allocated (heap_GT s0) e)"
  unfolding GT_Add_def
  by (rule keeps_bind, rule keeps_get_GT, rule keeps_bind, rule keeps_get_GT, rule keeps_set_GT)

lemma keeps_GT_Neg:
  "\<not> allocated (heap_GT s0) e \<Longrightarrow>
     keeps (extends fill s0) (GT_Neg e a) (\<lambda>e. \<not> allocated (heap_GT s0) e)"
  unfolding GT_Neg_def by (rule keeps_bind, rule keeps_get_GT, rule keeps_set_GT)

lemma keeps_Pair: "keeps (extends fill s0) (Pair bn a b) (\<lambda>e. \<not> allocated (heap_GT s0) e)"
  unfolding Pair_def
  by (rule keeps_bind, rule keeps_get_G1, rule keeps_bind, rule keeps_get_G2,
      rule keeps_bind, rule keeps_new_GT, rule keeps_set_GT)

lemma keeps_deepClone: "keeps (extends fill s0) (deepClone g) (\<lambda>e. \<not> allocated (heap_G1 s0) e)"
  unfolding deepClone_def
  by (rule keeps_bind, rule keeps_get_G1, rule keeps_bind, rule keeps_new_G1, rule keeps_set_G1)

lemma keeps_RandomG1: "keeps (extends fill s0) (RandomG1 bn) (\<lambda>e. \<not> allocated (heap_G1 s0) e)"
  unfolding RandomG1_def
  by (rule keeps_bind, rule keeps_randomK, rule keeps_bind, rule keeps_new_G1, rule keeps_set_G1)

lemma keeps_RandomG2: "keeps (extends fill s0) (RandomG2 bn) (\<lambda>e. \<not> allocated (heap_G2 s0) e)"
  unfolding RandomG2_def
  by (rule keeps_bind, rule keeps_randomK, rule keeps_bind, rule keeps_new_G2, rule keeps_set_G2)


lemma keeps_new_Params: "keeps (extends fill s0) new_Params (\<lambda>p. \<not> allocated (heap_Params s0) p)"
  by (auto simp add: keeps_def new_Params_def extends_def allocated_def nth_append)

lemma keeps_set_Params_fresh:
  "\<not> allocated (heap_Params s0) p \<Longrightarrow> keeps (extends fill s0) (set_Params p upd) (\<lambda>_. True)"
  by (auto simp add: keeps_def set_Params_def extends_def allocated_def split: option.splits)

lemma keeps_get_Pairing:
  "keeps (extends True s0) (get_Params p Pairing) (\<lambda>c. c = None \<longrightarrow> cache_empty s0 p)"
  by (auto simp add: keeps_def get_Params_def extends_def cache_empty_def same_but_cache_def
        params_kept_def
        split: option.splits)

lemma keeps_set_Pairing:
  "cache_empty s0 p \<Longrightarrow>
     keeps (extends True s0) (set_Params p (\<lambda>prm. prm\<lparr>Pairing := e\<rparr>)) (\<lambda>_. True)"
  by (auto simp add: keeps_def set_Params_def extends_def cache_empty_def same_but_cache_def
        params_kept_def
        nth_list_update split: option.splits)

lemma keeps_bind_if:
  assumes "c \<Longrightarrow> keeps I m (\<lambda>_. True)" and "\<not> c \<Longrightarrow> keeps I m' (\<lambda>_. True)"
    and "\<And>x. keeps I (f x) F"
  shows "keeps I (bind_p (if c then m else m') f) F"
  by (rule keeps_bind [where F = "\<lambda>_. True"]) (simp_all add: assms)

lemma keeps_bind_for_loop:
  assumes "\<And>i v. keeps I (body i v) (\<lambda>_. True)" and "\<And>x. keeps I (f x) F"
  shows "keeps I (bind_p (for_loop is body v) f) F"
  by (rule keeps_bind [where F = "\<lambda>_. True"], rule keeps_for_loop) (simp_all add: assms)

lemmas keeps_seq =
  keeps_bind [OF keeps_index] keeps_bind [OF keeps_rand_Int] keeps_bind [OF keeps_randomK]
  keeps_bind [OF keeps_get_G1] keeps_bind [OF keeps_get_G2] keeps_bind [OF keeps_get_GT]
  keeps_bind [OF keeps_get_Params]
  keeps_bind [OF keeps_new_G1] keeps_bind [OF keeps_new_G2] keeps_bind [OF keeps_new_GT]
  keeps_bind [OF keeps_G1_ScalarMult] keeps_bind [OF keeps_G1_Add]
  keeps_bind [OF keeps_G2_ScalarMult] keeps_bind [OF keeps_G2_Add]
  keeps_bind [OF keeps_GT_ScalarMult] keeps_bind [OF keeps_GT_Add] keeps_bind [OF keeps_GT_Neg]
  keeps_bind [OF keeps_Pair] keeps_bind [OF keeps_deepClone]
  keeps_bind [OF keeps_RandomG1] keeps_bind [OF keeps_RandomG2]
  keeps_bind [OF keeps_new_Params] keeps_bind [OF keeps_set_Params_fresh]
  keeps_bind_if keeps_bind_for_loop keeps_if keeps_throw

lemma keeps_accumulate:
  "\<not> allocated (heap_G1 s0) acc \<Longrightarrow> keeps (extends fill s0) (accumulate params ids acc) (\<lambda>_. True)"
  unfolding accumulate_def
  by (rule keeps_for_loop, intro keeps_seq keeps_return) simp_all

lemma keeps_KeyGenFromMaster:
  "keeps (extends fill s0) (KeyGenFromMaster bn params master ids) (\<lambda>_. True)"
  unfolding KeyGenFromMaster_def Let_def
  by (intro keeps_seq keeps_bind [OF keeps_accumulate] keeps_return) simp_all

lemma keeps_KeyGenFromParent:
  "keeps (extends fill s0) (KeyGenFromParent bn params parent ids) (\<lambda>_. True)"
  unfolding KeyGenFromParent_def Let_def
  by (intro keeps_seq keeps_bind [OF keeps_accumulate] keeps_return) simp_all

lemma keeps_cache_fill:
  "keeps (extends True s0) (bind_p (get_Params params Pairing) (\<lambda>pairing.
     if pairing = None then
       bind_p (get_Params params G2) (\<lambda>g2.
       bind_p (get_Params params G1) (\<lambda>g1.
       bind_p (Pair bn g2 g1) (\<lambda>e.
       set_Params params (\<lambda>prm. prm\<lparr>Pairing := e\<rparr>))))
     else return ())) (\<lambda>_. True)"
  by (rule keeps_bind [OF keeps_get_Pairing], intro keeps_seq keeps_return keeps_set_Pairing)
     simp_all

lemma keeps_Precache: "keeps (extends True s0) (Precache bn params) (\<lambda>_. True)"
  unfolding Precache_def by (rule keeps_cache_fill)

lemma keeps_Encrypt: "keeps (extends True s0) (Encrypt bn params ids message) (\<lambda>_. True)"
  unfolding Encrypt_def
  by (intro keeps_bind [OF keeps_get_Pairing] keeps_seq keeps_bind [OF keeps_accumulate]
        keeps_return keeps_set_Pairing) simp_all

lemma keeps_Decrypt: "keeps (extends fill s0) (Decrypt bn key ciphertext) (\<lambda>_. True)"
  unfolding Decrypt_def
  by (intro keeps_seq keeps_return) simp_all

lemma keeps_Setup: "keeps (extends fill s0) (Setup bn l) (\<lambda>_. True)"
  unfolding Setup_def
  by (intro keeps_seq keeps_return keeps_set_Params_fresh) simp_all

lemma load_eq_Some: "load h p = Some v \<longleftrightarrow> (\<exists>b. p = Some b \<and> b < length h \<and> h ! b = Some v)"
  by (cases p) (simp_all add: load_def)

lemma prefix_nth: "prefix xs ys \<Longrightarrow> i < length xs \<Longrightarrow> ys ! i = xs ! i"
  by (auto simp add: prefix_def nth_append)

lemma load_prefix: "prefix h h' \<Longrightarrow> load h p = Some v \<Longrightarrow> load h' p = Some v"
  by (auto simp add: load_eq_Some prefix_def nth_append)

text \<open>The accumulation, run from a state whose \<open>H[i]\<close> are readable below the accumulator.\<close>

lemma accumulate_loop:
  fixes s :: "('a::ab_group_add, 'b, 'c) store"
  assumes a: "a < length (heap_Params s)"
    and c: "n \<le> c" "c < length (heap_G1 s)" "heap_G1 s ! c = Some v0"
  shows "k \<le> length ids \<Longrightarrow> k \<le> length (H (heap_Params s ! a)) \<Longrightarrow>
    \<forall>i<k. \<exists>b<n. H (heap_Params s ! a) ! i = Some b \<and> heap_G1 s ! b = Some (hv i) \<Longrightarrow>
    for_loop [0..<k] (\<lambda>i _.
       bind_p new_G1 (\<lambda>e.
       bind_p (get_Params (Some a) H) (\<lambda>hs.
       bind_p (index hs (int i)) (\<lambda>hi.
       bind_p (index ids (int i)) (\<lambda>idi.
       bind_p (G1_ScalarMult e hi idi) (\<lambda>h.
       bind_p (G1_Add (Some c) (Some c) h) (\<lambda>_. return ()))))))) () s
    = (Inr (), s\<lparr>heap_G1 :=
         (heap_G1 s)[c := Some (v0 + (\<Sum>i<k. smul (hv i) (ids ! i)))]
           @ map (\<lambda>i. Some (smul (hv i) (ids ! i))) [0..<k]\<rparr>)"
  (is "_ \<Longrightarrow> _ \<Longrightarrow> _ \<Longrightarrow> for_loop _ ?body _ _ = (_, ?S k)")
proof (induction k)
  case 0
  show ?case using c list_update_id [of "heap_G1 s" c] by (simp add: return_app)
next
  case (Suc k)
  then have k: "k < length ids" and kl: "k < length (H (heap_Params s ! a))" by simp_all
  from Suc.prems(3) obtain b where b: "H (heap_Params s ! a) ! k = Some b" "b < n"
      "heap_G1 s ! b = Some (hv k)"
    by blast
  have step: "?body k () (?S k) = (Inr (), ?S (Suc k))"
    using k a c b kl
    by (simp add: exec nth_append list_update_append add.assoc)
  have ih: "for_loop [0..<k] ?body () s = (Inr (), ?S k)"
    using Suc.IH Suc.prems by simp
  show ?case
    by (simp only: for_loop_Suc bind_p_Inr [where m = "for_loop [0..<k] ?body ()" and s = s, OF ih] step)
qed

lemma accumulate_run:
  fixes s :: "('a::ab_group_add, 'b, 'c) store"
  assumes "a < length (heap_Params s)"
    and "length base \<le> c" "c < length (heap_G1 s)" "heap_G1 s ! c = Some v0"
    and "\<forall>i<length ids. \<exists>b<length base. H (heap_Params s ! a) ! i = Some b \<and> base ! b = Some (hv i)"
    and "\<forall>b<length base. heap_G1 s ! b = base ! b"
    and "length ids \<le> length (H (heap_Params s ! a))"
  shows "accumulate (Some a) ids (Some c) s
    = (Inr (), s\<lparr>heap_G1 :=
         (heap_G1 s)[c := Some (v0 + (\<Sum>i<length ids. smul (hv i) (ids ! i)))]
           @ map (\<lambda>i. Some (smul (hv i) (ids ! i))) [0..<length ids]\<rparr>)"
proof -
  have "\<forall>i<length ids. \<exists>b<length base. H (heap_Params s ! a) ! i = Some b
          \<and> heap_G1 s ! b = Some (hv i)"
    using assms(5,6) by auto
  then show ?thesis
    unfolding accumulate_def by (intro accumulate_loop [OF assms(1-4) _ assms(7)]) simp_all
qed

text \<open>The accumulation for an identity longer than \<open>H\<close>: the access \<open>params.H[l]\<close> panics.\<close>

lemma accumulate_overrun:
  fixes s :: "('a::ab_group_add, 'b, 'c) store"
  assumes "a < length (heap_Params s)"
    and "length base \<le> c" "c < length (heap_G1 s)" "heap_G1 s ! c = Some v0"
    and "\<forall>i<length (H (heap_Params s ! a)).
           \<exists>b<length base. H (heap_Params s ! a) ! i = Some b \<and> base ! b = Some (hv i)"
    and "\<forall>b<length base. heap_G1 s ! b = base ! b"
    and "length (H (heap_Params s ! a)) < length ids"
  shows "accumulate (Some a) ids (Some c) s = (Inl (Panic Index_out_of_range),
     s\<lparr>heap_G1 := (heap_G1 s)[c := Some (v0 +
           (\<Sum>i<length (H (heap_Params s ! a)). smul (hv i) (ids ! i)))]
         @ map (\<lambda>i. Some (smul (hv i) (ids ! i))) [0..<length (H (heap_Params s ! a))]
         @ [None]\<rparr>)"
proof -
  let ?l = "length (H (heap_Params s ! a))"
  let ?body = "\<lambda>i (_::unit).
       bind_p new_G1 (\<lambda>e.
       bind_p (get_Params (Some a) H) (\<lambda>hs.
       bind_p (index hs (int i)) (\<lambda>hi.
       bind_p (index ids (int i)) (\<lambda>idi.
       bind_p (G1_ScalarMult e hi idi) (\<lambda>h.
       bind_p (G1_Add (Some c) (Some c) h) (\<lambda>_. return ()))))))"
  let ?S = "s\<lparr>heap_G1 :=
         (heap_G1 s)[c := Some (v0 + (\<Sum>i<?l. smul (hv i) (ids ! i)))]
           @ map (\<lambda>i. Some (smul (hv i) (ids ! i))) [0..<?l]\<rparr>"
  have hs: "\<forall>i<?l. \<exists>b<length base. H (heap_Params s ! a) ! i = Some b
          \<and> heap_G1 s ! b = Some (hv i)"
    using assms(5,6) by auto
  have split: "[0..<length ids] = [0..<?l] @ ?l # [Suc ?l..<length ids]"
    using assms(7) upt_add_eq_append [of 0 ?l "length ids - ?l"]
    by (simp add: upt_conv_Cons)
  have first: "for_loop [0..<?l] ?body () s = (Inr (), ?S)"
    using assms(7) by (intro accumulate_loop [OF assms(1-4) _ _ hs]) simp_all
  have step: "?body ?l () ?S = (Inl (Panic Index_out_of_range), ?S\<lparr>heap_G1 := heap_G1 ?S @ [None]\<rparr>)"
    using assms(1) by (simp add: bind_p_app new_G1_app get_Params_app index_app)
  have "for_loop (?l # [Suc ?l..<length ids]) ?body () ?S
          = (Inl (Panic Index_out_of_range), ?S\<lparr>heap_G1 := heap_G1 ?S @ [None]\<rparr>)"
    unfolding for_loop.simps
    by (rule bind_p_Inl [where m = "?body ?l ()" and s = ?S, OF step])
  then have "for_loop [0..<length ids] ?body () s
          = (Inl (Panic Index_out_of_range), ?S\<lparr>heap_G1 := heap_G1 ?S @ [None]\<rparr>)"
    unfolding split for_loop_append
    by (simp only: bind_p_Inr [where m = "for_loop [0..<?l] ?body ()" and s = s, OF first])
  then show ?thesis by (simp add: accumulate_def)
qed

text \<open>The loop that fills \<open>key.B\<close> in \<open>KeyGenFromMaster\<close>.\<close>

lemma master_B_loop:
  fixes s :: "('a::ab_group_add, 'b, 'c) store"
  assumes a: "a < length (heap_Params s)"
    and n: "n \<le> length (heap_G1 s)"
    and hs: "\<forall>j<m. \<exists>b<n. H (heap_Params s ! a) ! (k + j) = Some b \<and> heap_G1 s ! b = Some (hv j)"
    and len: "k + m \<le> length (H (heap_Params s ! a))"
  shows "j \<le> m \<Longrightarrow>
    for_loop [0..<j] (\<lambda>j bs.
               bind_p new_G1 (\<lambda>e.
               bind_p (get_Params (Some a) H) (\<lambda>hs.
               bind_p (index hs (int k + int j)) (\<lambda>h.
               bind_p (G1_ScalarMult e h r) (\<lambda>bj.
               return (bs[j := bj])))))) (replicate m None) s
    = (Inr (map (\<lambda>i. Some (length (heap_G1 s) + i)) [0..<j] @ replicate (m - j) None),
       s\<lparr>heap_G1 := heap_G1 s @ map (\<lambda>i. Some (smul (hv i) r)) [0..<j]\<rparr>)"
  (is "_ \<Longrightarrow> for_loop _ ?body _ _ = (Inr (?B j), ?S j)")
proof (induction j)
  case 0
  show ?case by (simp add: return_app)
next
  case (Suc j)
  then have j: "j < m" by simp
  with hs obtain b where b: "H (heap_Params s ! a) ! (k + j) = Some b" "b < n"
      "heap_G1 s ! b = Some (hv j)"
    by blast
  have kl: "k + j < length (H (heap_Params s ! a))" using j len by simp
  have mj: "m - j = Suc (m - Suc j)" using j by simp
  have upd: "(?B j)[j := Some (length (heap_G1 s) + j)] = ?B (Suc j)"
    by (simp add: list_update_append mj)
  have step: "?body j (?B j) (?S j) = (Inr (?B (Suc j)), ?S (Suc j))"
    using j a n b kl upd
    by (simp add: exec nth_append nat_add_distrib list_update_append)
  have ih: "for_loop [0..<j] ?body (replicate m None) s = (Inr (?B j), ?S j)"
    using Suc.IH j by simp
  show ?case
    by (simp only: for_loop_Suc
          bind_p_Inr [where m = "for_loop [0..<j] ?body (replicate m None)" and s = s, OF ih] step)
qed


lemma master_B_run:
  fixes s :: "('a::ab_group_add, 'b, 'c) store"
  assumes "a < length (heap_Params s)"
    and "length base \<le> length (heap_G1 s)"
    and "\<forall>j<m. \<exists>b<length base. H (heap_Params s ! a) ! (k + j) = Some b \<and> base ! b = Some (hv (k + j))"
    and "\<forall>b<length base. heap_G1 s ! b = base ! b"
    and "k + m \<le> length (H (heap_Params s ! a))"
  shows
    "for_loop [0..<m] (\<lambda>j bs.
               bind_p new_G1 (\<lambda>e.
               bind_p (get_Params (Some a) H) (\<lambda>hs.
               bind_p (index hs (int k + int j)) (\<lambda>h.
               bind_p (G1_ScalarMult e h r) (\<lambda>bj.
               return (bs[j := bj])))))) (replicate m None) s
    = (Inr (map (\<lambda>i. Some (length (heap_G1 s) + i)) [0..<m]),
       s\<lparr>heap_G1 := heap_G1 s @ map (\<lambda>i. Some (smul (hv (k + i)) r)) [0..<m]\<rparr>)"
proof -
  have "\<forall>j<m. \<exists>b<length base. H (heap_Params s ! a) ! (k + j) = Some b
          \<and> heap_G1 s ! b = Some (hv (k + j))"
    using assms(3,4) by auto
  from master_B_loop [where hv = "\<lambda>j. hv (k + j)", OF assms(1,2) this assms(5), of m r]
  show ?thesis by simp
qed

lemma ptrs_shift:
  assumes "\<forall>i<l. \<exists>b<n. ps ! i = Some b \<and> h ! b = Some (hv i)"
    and "\<forall>b<n. h' ! b = h ! b" and "k + m \<le> l"
  shows "\<forall>j<m. \<exists>b<n. ps ! (k + j) = Some b \<and> h' ! b = Some (hv (k + j))"
proof (intro allI impI)
  fix j assume "j < m"
  then have "k + j < l" using assms(3) by simp
  then obtain b where "b < n" "ps ! (k + j) = Some b" "h ! b = Some (hv (k + j))"
    using assms(1) by blast
  then show "\<exists>b<n. ps ! (k + j) = Some b \<and> h' ! b = Some (hv (k + j))"
    using assms(2) by auto
qed

lemma ptrs_same:
  assumes "\<forall>i<l. \<exists>b<n. ps ! i = Some b \<and> h ! b = Some (hv i)"
    and "\<forall>b<n. h' ! b = h ! b" and "m \<le> l"
  shows "\<forall>j<m. \<exists>b<n. ps ! j = Some b \<and> h' ! b = Some (hv j)"
  using ptrs_shift [OF assms(1,2), of 0 m] assms(3) by simp

lemma KeyGenFromMaster_run:
  fixes s :: "('a::ab_group_add, 'b::ab_group_add, 'c) store"
  assumes a: "a < length (heap_Params s)" and prm: "heap_Params s ! a = prm"
    and k: "length ids \<le> length (H prm)"
    and rd: "reader s = Inr n # ds"
    and g3: "load (heap_G1 s) (G3 prm) = Some g3"
    and hs: "\<forall>i<length (H prm). load (heap_G1 s) (H prm ! i) = Some (hv i)"
    and g: "load (heap_G2 s) (G prm) = Some g"
    and mk: "load (heap_G1 s) master = Some mk"
  shows "\<exists>key s'. KeyGenFromMaster bn (Some a) master ids s = (Inr key, s') \<and>
     reader s' = ds \<and> heap_Params s' = heap_Params s \<and> heap_GT s' = heap_GT s \<and>
     load (heap_G1 s') (A0 key) =
       Some (mk + smul (g3 + (\<Sum>i<length ids. smul (hv i) (ids ! i))) (n mod Order bn)) \<and>
     load (heap_G2 s') (A1 key) = Some (smul g (n mod Order bn)) \<and>
     length (B key) = length (H prm) - length ids \<and>
     (\<forall>j<length (H prm) - length ids.
        load (heap_G1 s') (B key ! j) = Some (smul (hv (length ids + j)) (n mod Order bn)))"
proof -
  obtain b3 where b3: "G3 prm = Some b3" "b3 < length (heap_G1 s)" "heap_G1 s ! b3 = Some g3"
    using g3 by (auto simp add: load_eq_Some)
  obtain bg where bg: "G prm = Some bg" "bg < length (heap_G2 s)" "heap_G2 s ! bg = Some g"
    using g by (auto simp add: load_eq_Some)
  obtain bm where bm: "master = Some bm" "bm < length (heap_G1 s)" "heap_G1 s ! bm = Some mk"
    using mk by (auto simp add: load_eq_Some)
  have hs': "\<forall>i<length (H prm). \<exists>b<length (heap_G1 s). H prm ! i = Some b \<and> heap_G1 s ! b = Some (hv i)"
    using hs by (auto simp add: load_eq_Some)
  have hs1: "\<forall>i<length ids. \<exists>b<length (heap_G1 s).
          H prm ! i = Some b \<and> heap_G1 s ! b = Some (hv i)"
    using ptrs_same [OF hs' _ k, of "heap_G1 s"] by simp
  note acc = accumulate_run [where base = "heap_G1 s" and hv = hv and a = a and ?v0.0 = g3]
  have hs2: "\<forall>j<length (H prm) - length ids. \<exists>b<length (heap_G1 s).
          H prm ! (length ids + j) = Some b \<and> heap_G1 s ! b = Some (hv (length ids + j))"
    using ptrs_shift [OF hs', of "heap_G1 s" "length ids" "length (H prm) - length ids"] k by simp
  note bl = master_B_run [where base = "heap_G1 s" and hv = hv and a = a and k = "length ids"]
  show ?thesis
    using a prm k rd b3 bg bm hs1 hs2
    by (simp add: KeyGenFromMaster_def Let_def exec acc nth_append bl) auto
qed

lemma Encrypt_run:
  fixes s :: "('a::ab_group_add, 'b::ab_group_add, 'c::ab_group_add) store"
  assumes a: "a < length (heap_Params s)" and prm: "heap_Params s ! a = prm"
    and k: "length ids \<le> length (H prm)"
    and rd: "reader s = Inr n # ds"
    and g3: "load (heap_G1 s) (G3 prm) = Some g3"
    and hs: "\<forall>i<length (H prm). load (heap_G1 s) (H prm ! i) = Some (hv i)"
    and g: "load (heap_G2 s) (G prm) = Some g"
    and g2: "load (heap_G1 s) (G2 prm) = Some g2"
    and g1: "load (heap_G2 s) (G1 prm) = Some g1"
    and cache: "Pairing prm = None"
    and msg: "load (heap_GT s) message = Some m"
  shows "\<exists>ct s'. Encrypt bn (Some a) ids message s = (Inr ct, s') \<and>
     reader s' = ds \<and>
     heap_Params s' = (heap_Params s)[a := prm\<lparr>Pairing := Some (length (heap_GT s))\<rparr>] \<and>
     load (heap_GT s') (Some (length (heap_GT s))) = Some (Pairing_of bn g2 g1) \<and>
     load (heap_GT s') (ct_A ct) = Some (smul (Pairing_of bn g2 g1) (n mod Order bn) + m) \<and>
     load (heap_G2 s') (ct_B ct) = Some (smul g (n mod Order bn)) \<and>
     load (heap_G1 s') (ct_C ct) =
       Some (smul (g3 + (\<Sum>i<length ids. smul (hv i) (ids ! i))) (n mod Order bn))"
proof -
  obtain b3 where b3: "G3 prm = Some b3" "b3 < length (heap_G1 s)" "heap_G1 s ! b3 = Some g3"
    using g3 by (auto simp add: load_eq_Some)
  obtain bg where bg: "G prm = Some bg" "bg < length (heap_G2 s)" "heap_G2 s ! bg = Some g"
    using g by (auto simp add: load_eq_Some)
  obtain b2 where b2: "G2 prm = Some b2" "b2 < length (heap_G1 s)" "heap_G1 s ! b2 = Some g2"
    using g2 by (auto simp add: load_eq_Some)
  obtain b1 where b1: "G1 prm = Some b1" "b1 < length (heap_G2 s)" "heap_G2 s ! b1 = Some g1"
    using g1 by (auto simp add: load_eq_Some)
  obtain bm where bm: "message = Some bm" "bm < length (heap_GT s)" "heap_GT s ! bm = Some m"
    using msg by (auto simp add: load_eq_Some)
  have hs': "\<forall>i<length (H prm). \<exists>b<length (heap_G1 s). H prm ! i = Some b \<and> heap_G1 s ! b = Some (hv i)"
    using hs by (auto simp add: load_eq_Some)
  have hs1: "\<forall>i<length ids. \<exists>b<length (heap_G1 s).
          H prm ! i = Some b \<and> heap_G1 s ! b = Some (hv i)"
    using ptrs_same [OF hs' _ k, of "heap_G1 s"] by simp
  note acc = accumulate_run [where base = "heap_G1 s" and hv = hv and a = a and ?v0.0 = g3]
  show ?thesis
    using a prm k rd b3 bg b2 b1 bm cache hs1
    by (simp add: Encrypt_def exec acc nth_append)
qed

lemma Encrypt_run_cached:
  fixes s :: "('a::ab_group_add, 'b::ab_group_add, 'c::ab_group_add) store"
  assumes a: "a < length (heap_Params s)" and prm: "heap_Params s ! a = prm"
    and k: "length ids \<le> length (H prm)"
    and rd: "reader s = Inr n # ds"
    and g3: "load (heap_G1 s) (G3 prm) = Some g3"
    and hs: "\<forall>i<length (H prm). load (heap_G1 s) (H prm ! i) = Some (hv i)"
    and g: "load (heap_G2 s) (G prm) = Some g"
    and cache: "Pairing prm = Some c" "load (heap_GT s) (Some c) = Some pv"
    and msg: "load (heap_GT s) message = Some m"
  shows "\<exists>ct s'. Encrypt bn (Some a) ids message s = (Inr ct, s') \<and>
     reader s' = ds \<and> heap_Params s' = heap_Params s \<and>
     load (heap_GT s') (ct_A ct) = Some (smul pv (n mod Order bn) + m) \<and>
     load (heap_G2 s') (ct_B ct) = Some (smul g (n mod Order bn)) \<and>
     load (heap_G1 s') (ct_C ct) =
       Some (smul (g3 + (\<Sum>i<length ids. smul (hv i) (ids ! i))) (n mod Order bn))"
proof -
  obtain b3 where b3: "G3 prm = Some b3" "b3 < length (heap_G1 s)" "heap_G1 s ! b3 = Some g3"
    using g3 by (auto simp add: load_eq_Some)
  obtain bg where bg: "G prm = Some bg" "bg < length (heap_G2 s)" "heap_G2 s ! bg = Some g"
    using g by (auto simp add: load_eq_Some)
  have c: "c < length (heap_GT s)" "heap_GT s ! c = Some pv"
    using cache(2) by (auto simp add: load_eq_Some)
  obtain bm where bm: "message = Some bm" "bm < length (heap_GT s)" "heap_GT s ! bm = Some m"
    using msg by (auto simp add: load_eq_Some)
  have hs': "\<forall>i<length (H prm). \<exists>b<length (heap_G1 s). H prm ! i = Some b \<and> heap_G1 s ! b = Some (hv i)"
    using hs by (auto simp add: load_eq_Some)
  have hs1: "\<forall>i<length ids. \<exists>b<length (heap_G1 s).
          H prm ! i = Some b \<and> heap_G1 s ! b = Some (hv i)"
    using ptrs_same [OF hs' _ k, of "heap_G1 s"] by simp
  note acc = accumulate_run [where base = "heap_G1 s" and hv = hv and a = a and ?v0.0 = g3]
  show ?thesis
    using a prm k rd b3 bg c bm cache(1) hs1
    by (simp add: Encrypt_def exec acc nth_append)
qed

text \<open>\<open>Encrypt\<close> for an identity deeper than the hierarchy.\<close>

lemma Encrypt_overrun:
  fixes s :: "('a::ab_group_add, 'b::ab_group_add, 'c::ab_group_add) store"
  assumes a: "a < length (heap_Params s)" and prm: "heap_Params s ! a = prm"
    and k: "length (H prm) < length ids"
    and rd: "reader s = Inr n # ds"
    and g3: "load (heap_G1 s) (G3 prm) = Some g3"
    and hs: "\<forall>i<length (H prm). load (heap_G1 s) (H prm ! i) = Some (hv i)"
    and g: "load (heap_G2 s) (G prm) = Some g"
    and cache: "Pairing prm = None \<and> load (heap_G1 s) (G2 prm) = Some g2
                  \<and> load (heap_G2 s) (G1 prm) = Some g1
                \<or> load (heap_GT s) (Pairing prm) = Some pv"
    and msg: "load (heap_GT s) message = Some m"
  shows "fst (Encrypt bn (Some a) ids message s) = Inl (Panic Index_out_of_range)"
proof -
  obtain b3 where b3: "G3 prm = Some b3" "b3 < length (heap_G1 s)" "heap_G1 s ! b3 = Some g3"
    using g3 by (auto simp add: load_eq_Some)
  obtain bg where bg: "G prm = Some bg" "bg < length (heap_G2 s)" "heap_G2 s ! bg = Some g"
    using g by (auto simp add: load_eq_Some)
  obtain bm where bm: "message = Some bm" "bm < length (heap_GT s)" "heap_GT s ! bm = Some m"
    using msg by (auto simp add: load_eq_Some)
  have hs': "\<forall>i<length (H prm). \<exists>b<length (heap_G1 s). H prm ! i = Some b \<and> heap_G1 s ! b = Some (hv i)"
    using hs by (auto simp add: load_eq_Some)
  note acc = accumulate_overrun [where base = "heap_G1 s" and hv = hv and a = a and ?v0.0 = g3]
  from cache show ?thesis
  proof
    assume "Pairing prm = None \<and> load (heap_G1 s) (G2 prm) = Some g2
                  \<and> load (heap_G2 s) (G1 prm) = Some g1"
    then obtain b2 b1 where "Pairing prm = None"
      "G2 prm = Some b2" "b2 < length (heap_G1 s)" "heap_G1 s ! b2 = Some g2"
      "G1 prm = Some b1" "b1 < length (heap_G2 s)" "heap_G2 s ! b1 = Some g1"
      by (auto simp add: load_eq_Some)
    then show ?thesis
      using a prm k rd b3 bg bm hs'
      by (simp add: Encrypt_def exec acc nth_append)
  next
    assume "load (heap_GT s) (Pairing prm) = Some pv"
    then obtain c where "Pairing prm = Some c" "c < length (heap_GT s)" "heap_GT s ! c = Some pv"
      by (auto simp add: load_eq_Some)
    then show ?thesis
      using a prm k rd b3 bg bm hs'
      by (simp add: Encrypt_def exec acc nth_append)
  qed
qed

lemma Decrypt_run:
  fixes s :: "('a, 'b, 'c::ab_group_add) store"
  assumes "load (heap_G1 s) (A0 key) = Some a0" and "load (heap_G2 s) (A1 key) = Some a1"
    and "load (heap_GT s) (ct_A ct) = Some ca" and "load (heap_G2 s) (ct_B ct) = Some cb"
    and "load (heap_G1 s) (ct_C ct) = Some cc"
  shows "\<exists>pt s'. Decrypt bn key ct s = (Inr pt, s') \<and> reader s' = reader s \<and>
     heap_Params s' = heap_Params s \<and>
     load (heap_GT s') pt = Some (ca + (Pairing_of bn cc a1 + - Pairing_of bn a0 cb))"
proof -
  obtain p0 where p0: "A0 key = Some p0" "p0 < length (heap_G1 s)" "heap_G1 s ! p0 = Some a0"
    using assms(1) by (auto simp add: load_eq_Some)
  obtain p1 where p1: "A1 key = Some p1" "p1 < length (heap_G2 s)" "heap_G2 s ! p1 = Some a1"
    using assms(2) by (auto simp add: load_eq_Some)
  obtain pa where pa: "ct_A ct = Some pa" "pa < length (heap_GT s)" "heap_GT s ! pa = Some ca"
    using assms(3) by (auto simp add: load_eq_Some)
  obtain pb where pb: "ct_B ct = Some pb" "pb < length (heap_G2 s)" "heap_G2 s ! pb = Some cb"
    using assms(4) by (auto simp add: load_eq_Some)
  obtain pc where pc: "ct_C ct = Some pc" "pc < length (heap_G1 s)" "heap_G1 s ! pc = Some cc"
    using assms(5) by (auto simp add: load_eq_Some)
  show ?thesis
    using p0 p1 pa pb pc
    by (simp add: Decrypt_def exec nth_append)
qed

lemma Precache_run:
  assumes a: "a < length (heap_Params s)" and prm: "heap_Params s ! a = prm"
    and g2: "load (heap_G1 s) (G2 prm) = Some g2"
    and g1: "load (heap_G2 s) (G1 prm) = Some g1"
    and cache: "Pairing prm = None"
  shows "Precache bn (Some a) s = (Inr (),
     s\<lparr>heap_GT := heap_GT s @ [Some (Pairing_of bn g2 g1)],
       heap_Params := (heap_Params s)[a := prm\<lparr>Pairing := Some (length (heap_GT s))\<rparr>]\<rparr>)"
proof -
  obtain b2 where b2: "G2 prm = Some b2" "b2 < length (heap_G1 s)" "heap_G1 s ! b2 = Some g2"
    using g2 by (auto simp add: load_eq_Some)
  obtain b1 where b1: "G1 prm = Some b1" "b1 < length (heap_G2 s)" "heap_G2 s ! b1 = Some g1"
    using g1 by (auto simp add: load_eq_Some)
  show ?thesis
    using a prm b2 b1 cache
    by (simp add: Precache_def exec)
qed

lemma bind_p_Inr_iff:
  "bind_p m f s = (Inr y, s'') \<longleftrightarrow> (\<exists>x s'. m s = (Inr x, s') \<and> f x s' = (Inr y, s''))"
  by (auto simp add: bind_p_def split: prod.splits sum.splits)

text \<open>The loop of \<open>Setup\<close> that fills \<open>params.H\<close>, when it succeeds.\<close>

lemma Setup_loop:
  fixes s :: "('a::ab_group_add, 'b, 'c) store"
  assumes a: "a < length (heap_Params s)"
  shows "n \<le> length (H (heap_Params s ! a)) \<Longrightarrow>
    for_loop [0..<n] (\<lambda>i _.
       bind_p (RandomG1 bn) (\<lambda>h.
       set_Params (Some a) (\<lambda>prm. prm\<lparr>H := (H prm)[i := h]\<rparr>))) () s = (Inr (), s') \<Longrightarrow>
    \<exists>ks ds. length ks = n \<and>
      s' = s\<lparr>reader := ds,
             heap_G1 := heap_G1 s @ map (\<lambda>k. Some (smul (Base1 bn) k)) ks,
             heap_Params := (heap_Params s)[a := (heap_Params s ! a)
               \<lparr>H := map (\<lambda>i. Some (length (heap_G1 s) + i)) [0..<n]
                       @ drop n (H (heap_Params s ! a))\<rparr>]\<rparr>"
  (is "_ \<Longrightarrow> for_loop _ ?body _ _ = _ \<Longrightarrow> _")
proof (induction n arbitrary: s')
  case 0
  then show ?case
    using a by (auto simp add: return_app intro!: exI [of _ "[]"] exI [of _ "reader s"])
next
  case (Suc n)
  from Suc.prems(2) obtain s1 where
    l: "for_loop [0..<n] ?body () s = (Inr (), s1)" and b: "?body n () s1 = (Inr (), s')"
    unfolding for_loop_Suc bind_p_Inr_iff by auto
  from Suc.IH [OF _ l] Suc.prems(1) obtain ks ds where ks: "length ks = n"
    and s1: "s1 = s\<lparr>reader := ds,
             heap_G1 := heap_G1 s @ map (\<lambda>k. Some (smul (Base1 bn) k)) ks,
             heap_Params := (heap_Params s)[a := (heap_Params s ! a)
               \<lparr>H := map (\<lambda>i. Some (length (heap_G1 s) + i)) [0..<n]
                       @ drop n (H (heap_Params s ! a))\<rparr>]\<rparr>"
    by auto
  obtain r d where rn: "random_nonzero (Order bn) ds = (r, d)" by force
  from b obtain k where r: "r = Inr k"
    using rn a by (cases r) (simp_all add: s1 bind_p_app RandomG1_app)
  have dr: "drop n (H (heap_Params s ! a)) = H (heap_Params s ! a) ! n # drop (Suc n) (H (heap_Params s ! a))"
    using Suc.prems(1) by (simp add: Cons_nth_drop_Suc)
  have "s' = s\<lparr>reader := d,
             heap_G1 := heap_G1 s @ map (\<lambda>k. Some (smul (Base1 bn) k)) (ks @ [k]),
             heap_Params := (heap_Params s)[a := (heap_Params s ! a)
               \<lparr>H := map (\<lambda>i. Some (length (heap_G1 s) + i)) [0..<Suc n]
                       @ drop (Suc n) (H (heap_Params s ! a))\<rparr>]\<rparr>"
    using b rn r a ks
    by (simp add: s1 bind_p_app RandomG1_app set_Params_app list_update_append dr)
  then show ?case using ks by (intro exI [of _ "ks @ [k]"] exI [of _ d]) simp
qed

text \<open>What a successful \<open>Setup\<close> leaves.\<close>

lemma Setup_spec:
  fixes s :: "('a::ab_group_add, 'b::ab_group_add, 'c) store"
  assumes "Setup bn l s = (Inr (params, master), s')"
  shows "\<exists>g g2 g3 hv alpha. params = Some (length (heap_Params s)) \<and>
     length (heap_Params s) < length (heap_Params s') \<and> 0 \<le> l \<and>
     length (H (heap_Params s' ! length (heap_Params s))) = nat l \<and>
     Pairing (heap_Params s' ! length (heap_Params s)) = None \<and>
     load (heap_G2 s') (G (heap_Params s' ! length (heap_Params s))) = Some g \<and>
     load (heap_G2 s') (G1 (heap_Params s' ! length (heap_Params s))) = Some (smul g alpha) \<and>
     load (heap_G1 s') (G2 (heap_Params s' ! length (heap_Params s))) = Some g2 \<and>
     load (heap_G1 s') (G3 (heap_Params s' ! length (heap_Params s))) = Some g3 \<and>
     (\<forall>i<nat l. load (heap_G1 s') (H (heap_Params s' ! length (heap_Params s)) ! i) = Some (hv i)) \<and>
     load (heap_G1 s') master = Some (smul g2 alpha)"
proof -
  let ?a = "length (heap_Params s)"
  obtain r1 d1 where rn1: "random_nonzero (Order bn) (reader s) = (r1, d1)" by force
  obtain k1 where r1: "r1 = Inr k1"
    using assms rn1 by (cases r1) (simp_all add: Setup_def exec)
  obtain n d2 where d1: "d1 = Inr n # d2"
    using assms rn1 r1
    by (cases d1; cases "hd d1") (simp_all add: Setup_def exec nth_append)
  obtain r2 d3 where rn2: "random_nonzero (Order bn) d2 = (r2, d3)" by force
  obtain k2 where r2: "r2 = Inr k2"
    using assms rn1 r1 d1 rn2 by (cases r2) (simp_all add: Setup_def exec nth_append)
  obtain r3 d4 where rn3: "random_nonzero (Order bn) d3 = (r3, d4)" by force
  obtain k3 where r3: "r3 = Inr k3"
    using assms rn1 r1 d1 rn2 r2 rn3 by (cases r3) (simp_all add: Setup_def exec nth_append)
  have l: "0 \<le> l"
    using assms rn1 r1 d1 rn2 r2 rn3 r3
    by (cases "l < 0") (simp_all add: Setup_def exec nth_append)
  let ?S = "s\<lparr>heap_G2 :=
                     (heap_G2 s @ [Some (smul (Base2 bn) k1), None])
                     [Suc (length (heap_G2 s)) :=
                        Some (smul (smul (Base2 bn) k1) (n mod Order bn))],
                     reader := d4,
                     heap_G1 :=
                       heap_G1 s @
                       [Some (smul (Base1 bn) k2),
                        Some (smul (Base1 bn) k3)],
                     heap_Params :=
                       heap_Params s @
                       [\<lparr>G = Some (length (heap_G2 s)),
                           G1 = Some (Suc (length (heap_G2 s))),
                           G2 = Some (length (heap_G1 s)),
                           G3 = Some (Suc (length (heap_G1 s))),
                           H = replicate (nat l) None, Pairing = None\<rparr>]\<rparr>"
  let ?loop = "for_loop [0..<nat l] (\<lambda>i _.
       bind_p (RandomG1 bn) (\<lambda>h.
       set_Params (Some ?a) (\<lambda>prm. prm\<lparr>H := (H prm)[i := h]\<rparr>))) ()"
  obtain r4 s4 where lp: "?loop ?S = (r4, s4)" by force
  have r4: "r4 = Inr ()"
    using assms rn1 r1 d1 rn2 r2 rn3 r3 l lp
    by (cases r4) (simp_all add: Setup_def exec nth_append)
  from Setup_loop [of ?a ?S "nat l" bn s4] lp r4 obtain ks ds where ks: "length ks = nat l"
    and s4: "s4 = ?S\<lparr>reader := ds,
             heap_G1 := heap_G1 ?S @ map (\<lambda>k. Some (smul (Base1 bn) k)) ks,
             heap_Params := (heap_Params ?S)[?a := (heap_Params ?S ! ?a)
               \<lparr>H := map (\<lambda>i. Some (length (heap_G1 ?S) + i)) [0..<nat l]
                       @ drop (nat l) (H (heap_Params ?S ! ?a))\<rparr>]\<rparr>"
    by auto
  have fin: "params = Some ?a \<and> master = Some (Suc (Suc (length (heap_G1 s) + nat l))) \<and>
      s' = s\<lparr>heap_G2 :=
          (heap_G2 s @ [Some (smul (Base2 bn) k1), None])
          [Suc (length (heap_G2 s)) :=
             Some (smul (smul (Base2 bn) k1) (n mod Order bn))],
          reader := ds,
          heap_Params :=
            heap_Params s @
            [\<lparr>G = Some (length (heap_G2 s)),
                G1 = Some (Suc (length (heap_G2 s))),
                G2 = Some (length (heap_G1 s)),
                G3 = Some (Suc (length (heap_G1 s))),
                H = map (\<lambda>i. Some (Suc (Suc (length (heap_G1 s) + i))))
                     [0..<nat l],
                Pairing = None\<rparr>],
          heap_G1 :=
            (heap_G1 s @
             Some (smul (Base1 bn) k2) #
             Some (smul (Base1 bn) k3) #
             map (\<lambda>k. Some (smul (Base1 bn) k)) ks @ [None])
            [Suc (Suc (length (heap_G1 s) + nat l)) :=
               Some (smul (smul (Base1 bn) k2) (n mod Order bn))]\<rparr>"
    using assms rn1 r1 d1 rn2 r2 rn3 r3 l lp r4 ks
    by (auto simp add: Setup_def exec nth_append s4)
  show ?thesis
    apply (rule exI [of _ "smul (Base2 bn) k1"])
    apply (rule exI [of _ "smul (Base1 bn) k2"])
    apply (rule exI [of _ "smul (Base1 bn) k3"])
    apply (rule exI [of _ "\<lambda>i. smul (Base1 bn) (ks ! i)"])
    apply (rule exI [of _ "n mod Order bn"])
    using l ks
    apply (simp add: fin load_Some nth_append list_update_append nth_list_update)
    done
qed

text \<open>The loop that fills \<open>key.B\<close> in \<open>KeyGenFromParent\<close>.\<close>

lemma parent_B_loop:
  fixes s :: "('a::ab_group_add, 'b, 'c) store"
  assumes a: "a < length (heap_Params s)"
    and n: "n \<le> length (heap_G1 s)"
    and hs: "\<forall>j<m. \<exists>b<n. H (heap_Params s ! a) ! (k + j) = Some b \<and> heap_G1 s ! b = Some (hv j)"
    and ps: "\<forall>j<m. \<exists>b<n. pB ! Suc j = Some b \<and> heap_G1 s ! b = Some (pv j)"
    and len: "k + m \<le> length (H (heap_Params s ! a))" "Suc m \<le> length pB"
  shows "j \<le> m \<Longrightarrow>
    for_loop [0..<j] (\<lambda>j bs.
               bind_p new_G1 (\<lambda>e.
               bind_p (get_Params (Some a) H) (\<lambda>hs.
               bind_p (index hs (int k + int j)) (\<lambda>h.
               bind_p (G1_ScalarMult e h t) (\<lambda>bj.
               bind_p (index pB (int j + 1)) (\<lambda>pb.
               bind_p (G1_Add bj pb bj) (\<lambda>_.
               return (bs[j := bj])))))))) (replicate m None) s
    = (Inr (map (\<lambda>i. Some (length (heap_G1 s) + i)) [0..<j] @ replicate (m - j) None),
       s\<lparr>heap_G1 := heap_G1 s @ map (\<lambda>i. Some (pv i + smul (hv i) t)) [0..<j]\<rparr>)"
  (is "_ \<Longrightarrow> for_loop _ ?body _ _ = (Inr (?B j), ?S j)")
proof (induction j)
  case 0
  show ?case by (simp add: return_app)
next
  case (Suc j)
  then have j: "j < m" by simp
  with hs obtain b where b: "H (heap_Params s ! a) ! (k + j) = Some b" "b < n"
      "heap_G1 s ! b = Some (hv j)"
    by blast
  from j ps obtain p where p: "pB ! Suc j = Some p" "p < n" "heap_G1 s ! p = Some (pv j)"
    by blast
  have kl: "k + j < length (H (heap_Params s ! a))" "Suc j < length pB" using j len by simp_all
  have mj: "m - j = Suc (m - Suc j)" using j by simp
  have upd: "(?B j)[j := Some (length (heap_G1 s) + j)] = ?B (Suc j)"
    by (simp add: list_update_append mj)
  have step: "?body j (?B j) (?S j) = (Inr (?B (Suc j)), ?S (Suc j))"
    using j a n b p kl upd
    by (simp add: exec nth_append nat_add_distrib list_update_append)
  have ih: "for_loop [0..<j] ?body (replicate m None) s = (Inr (?B j), ?S j)"
    using Suc.IH j by simp
  show ?case
    by (simp only: for_loop_Suc
          bind_p_Inr [where m = "for_loop [0..<j] ?body (replicate m None)" and s = s, OF ih] step)
qed

lemma parent_B_run:
  fixes s :: "('a::ab_group_add, 'b, 'c) store"
  assumes "a < length (heap_Params s)"
    and "length base \<le> length (heap_G1 s)"
    and "\<forall>j<m. \<exists>b<length base. H (heap_Params s ! a) ! (k + j) = Some b \<and> base ! b = Some (hv (k + j))"
    and "\<forall>j<m. \<exists>b<length base. pB ! Suc j = Some b \<and> base ! b = Some (pv (Suc j))"
    and "\<forall>b<length base. heap_G1 s ! b = base ! b"
    and "k + m \<le> length (H (heap_Params s ! a))" "Suc m \<le> length pB"
  shows
    "for_loop [0..<m] (\<lambda>j bs.
               bind_p new_G1 (\<lambda>e.
               bind_p (get_Params (Some a) H) (\<lambda>hs.
               bind_p (index hs (int k + int j)) (\<lambda>h.
               bind_p (G1_ScalarMult e h t) (\<lambda>bj.
               bind_p (index pB (int j + 1)) (\<lambda>pb.
               bind_p (G1_Add bj pb bj) (\<lambda>_.
               return (bs[j := bj])))))))) (replicate m None) s
    = (Inr (map (\<lambda>i. Some (length (heap_G1 s) + i)) [0..<m]),
       s\<lparr>heap_G1 := heap_G1 s
          @ map (\<lambda>i. Some (pv (Suc i) + smul (hv (k + i)) t)) [0..<m]\<rparr>)"
proof -
  have 1: "\<forall>j<m. \<exists>b<length base. H (heap_Params s ! a) ! (k + j) = Some b
          \<and> heap_G1 s ! b = Some (hv (k + j))"
    using assms(3,5) by auto
  have 2: "\<forall>j<m. \<exists>b<length base. pB ! Suc j = Some b \<and> heap_G1 s ! b = Some (pv (Suc j))"
    using assms(4,5) by auto
  from parent_B_loop [where hv = "\<lambda>j. hv (k + j)" and pv = "\<lambda>j. pv (Suc j)",
      OF assms(1,2) 1 2 assms(6,7), of m t]
  show ?thesis by simp
qed

lemma KeyGenFromParent_run:
  fixes s :: "('a::ab_group_add, 'b::ab_group_add, 'c) store"
  assumes a: "a < length (heap_Params s)" and prm: "heap_Params s ! a = prm"
    and k: "length ids \<le> length (H prm)" "ids \<noteq> []"
    and rd: "reader s = Inr n # ds"
    and g3: "load (heap_G1 s) (G3 prm) = Some g3"
    and hs: "\<forall>i<length (H prm). load (heap_G1 s) (H prm ! i) = Some (hv i)"
    and g: "load (heap_G2 s) (G prm) = Some g"
    and p0: "load (heap_G1 s) (A0 parent) = Some pa0"
    and p1: "load (heap_G2 s) (A1 parent) = Some pa1"
    and pl: "length (B parent) = Suc (length (H prm) - length ids)"
    and pb: "\<forall>j<length (B parent). load (heap_G1 s) (B parent ! j) = Some (pv j)"
  shows "\<exists>key s'. KeyGenFromParent bn (Some a) parent ids s = (Inr key, s') \<and>
     reader s' = ds \<and> heap_Params s' = heap_Params s \<and> heap_GT s' = heap_GT s \<and>
     load (heap_G1 s') (A0 key) =
       Some (pa0 + smul (pv 0) (ids ! (length ids - 1))
          + smul (g3 + (\<Sum>i<length ids. smul (hv i) (ids ! i))) (n mod Order bn)) \<and>
     load (heap_G2 s') (A1 key) = Some (pa1 + smul g (n mod Order bn)) \<and>
     length (B key) = length (H prm) - length ids \<and>
     (\<forall>j<length (H prm) - length ids.
        load (heap_G1 s') (B key ! j)
          = Some (pv (Suc j) + smul (hv (length ids + j)) (n mod Order bn)))"
proof -
  obtain b3 where b3: "G3 prm = Some b3" "b3 < length (heap_G1 s)" "heap_G1 s ! b3 = Some g3"
    using g3 by (auto simp add: load_eq_Some)
  obtain bg where bg: "G prm = Some bg" "bg < length (heap_G2 s)" "heap_G2 s ! bg = Some g"
    using g by (auto simp add: load_eq_Some)
  obtain q0 where q0: "A0 parent = Some q0" "q0 < length (heap_G1 s)" "heap_G1 s ! q0 = Some pa0"
    using p0 by (auto simp add: load_eq_Some)
  obtain q1 where q1: "A1 parent = Some q1" "q1 < length (heap_G2 s)" "heap_G2 s ! q1 = Some pa1"
    using p1 by (auto simp add: load_eq_Some)
  have pb': "\<forall>j<length (B parent). \<exists>b<length (heap_G1 s). B parent ! j = Some b \<and> heap_G1 s ! b = Some (pv j)"
    using pb by (auto simp add: load_eq_Some)
  obtain qb where qb: "B parent ! 0 = Some qb" "qb < length (heap_G1 s)" "heap_G1 s ! qb = Some (pv 0)"
    using pb' pl by (metis zero_less_Suc)
  have hs': "\<forall>i<length (H prm). \<exists>b<length (heap_G1 s). H prm ! i = Some b \<and> heap_G1 s ! b = Some (hv i)"
    using hs by (auto simp add: load_eq_Some)
  have hs1: "\<forall>i<length ids. \<exists>b<length (heap_G1 s).
          H prm ! i = Some b \<and> heap_G1 s ! b = Some (hv i)"
    using ptrs_same [OF hs' _ k(1), of "heap_G1 s"] by simp
  have hs2: "\<forall>j<length (H prm) - length ids. \<exists>b<length (heap_G1 s).
          H prm ! (length ids + j) = Some b \<and> heap_G1 s ! b = Some (hv (length ids + j))"
    using ptrs_shift [OF hs', of "heap_G1 s" "length ids" "length (H prm) - length ids"] k by simp
  have pb2: "\<forall>j<length (H prm) - length ids. \<exists>b<length (heap_G1 s).
          B parent ! Suc j = Some b \<and> heap_G1 s ! b = Some (pv (Suc j))"
    using pb' pl by auto
  have idk: "0 < length ids" using k(2) by simp
  note acc = accumulate_run [where base = "heap_G1 s" and hv = hv and a = a and ?v0.0 = g3]
  note bl = parent_B_run [where base = "heap_G1 s" and hv = hv and pv = pv and a = a
      and k = "length ids"]
  have nk: "nat (int (length ids) - 1) = length ids - Suc 0" by simp
  show ?thesis
    using a prm k rd b3 bg q0 q1 qb hs1 hs2 pb2 pl idk
    by (simp add: KeyGenFromParent_def DepthLeft_def Let_def exec acc nth_append bl nk) auto
qed

text \<open>What was readable stays readable, with its value.\<close>

lemma extends_load_G1:
  "extends fill s s' \<Longrightarrow> load (heap_G1 s) p = Some v \<Longrightarrow> load (heap_G1 s') p = Some v"
  by (auto simp add: extends_def intro: load_prefix)

lemma extends_load_G2:
  "extends fill s s' \<Longrightarrow> load (heap_G2 s) p = Some v \<Longrightarrow> load (heap_G2 s') p = Some v"
  by (auto simp add: extends_def intro: load_prefix)

lemma extends_load_GT:
  "extends fill s s' \<Longrightarrow> load (heap_GT s) p = Some v \<Longrightarrow> load (heap_GT s') p = Some v"
  by (auto simp add: extends_def intro: load_prefix)

lemma extends_Params:
  assumes "extends fill s s'" and "a < length (heap_Params s)"
  shows "a < length (heap_Params s') \<and> same_but_cache (heap_Params s ! a) (heap_Params s' ! a)"
  using assms by (auto simp add: extends_def params_kept_def same_but_cache_refl split: if_splits)

lemma params_vals_extends:
  assumes "extends fill s s'" and "params_vals s params g g1 g2 g3 hv l"
  shows "params_vals s' params g g1 g2 g3 hv l"
proof -
  from assms(2) obtain a where a: "params = Some a" "a < length (heap_Params s)"
    and v: "length (H (heap_Params s ! a)) = l"
      "load (heap_G2 s) (G (heap_Params s ! a)) = Some g"
      "load (heap_G2 s) (G1 (heap_Params s ! a)) = Some g1"
      "load (heap_G1 s) (G2 (heap_Params s ! a)) = Some g2"
      "load (heap_G1 s) (G3 (heap_Params s ! a)) = Some g3"
      "\<forall>i<l. load (heap_G1 s) (H (heap_Params s ! a) ! i) = Some (hv i)"
    unfolding params_vals_def by blast
  from extends_Params [OF assms(1) a(2)]
  have a': "a < length (heap_Params s')"
    and f: "G (heap_Params s' ! a) = G (heap_Params s ! a)"
      "G1 (heap_Params s' ! a) = G1 (heap_Params s ! a)"
      "G2 (heap_Params s' ! a) = G2 (heap_Params s ! a)"
      "G3 (heap_Params s' ! a) = G3 (heap_Params s ! a)"
      "H (heap_Params s' ! a) = H (heap_Params s ! a)"
    by (simp_all add: same_but_cache_def)
  show ?thesis
    unfolding params_vals_def
    using a(1) a' v
    by (auto simp add: f intro: extends_load_G1 [OF assms(1)] extends_load_G2 [OF assms(1)])
qed

lemma key_for_extends:
  "extends fill s s' \<Longrightarrow> key_for s mk g g3 hv l ids r key \<Longrightarrow> key_for s' mk g g3 hv l ids r key"
  unfolding key_for_def
  by (auto intro: extends_load_G1 extends_load_G2)

lemma ct_for_extends:
  "extends fill s s' \<Longrightarrow> ct_for s pv g g3 hv ids t m ct \<Longrightarrow> ct_for s' pv g g3 hv ids t m ct"
  unfolding ct_for_def
  by (auto intro: extends_load_G1 extends_load_G2 extends_load_GT)

text \<open>The operations, in these terms.\<close>

lemma KeyGenFromMaster_key:
  fixes s :: "('a::ab_group_add, 'b::ab_group_add, 'c) store"
  assumes "params_vals s params g g1 g2 g3 hv l" and "length ids \<le> l"
    and "reader s = Inr n # ds" and "load (heap_G1 s) master = Some mk"
  shows "\<exists>key s'. KeyGenFromMaster bn params master ids s = (Inr key, s') \<and>
     reader s' = ds \<and> extends False s s' \<and>
     key_for s' mk g g3 hv l ids (n mod Order bn) key"
proof -
  from assms(1) obtain a where a: "params = Some a" "a < length (heap_Params s)"
    and v: "length (H (heap_Params s ! a)) = l"
      "load (heap_G2 s) (G (heap_Params s ! a)) = Some g"
      "load (heap_G1 s) (G3 (heap_Params s ! a)) = Some g3"
      "\<forall>i<l. load (heap_G1 s) (H (heap_Params s ! a) ! i) = Some (hv i)"
    unfolding params_vals_def by blast
  from KeyGenFromMaster_run [where bn = bn and ids = ids and hv = hv,
      OF a(2) refl _ assms(3) v(3) _ v(2) assms(4)]
    assms(2) v(1,4)
  obtain key s' where r: "KeyGenFromMaster bn (Some a) master ids s = (Inr key, s')"
    "reader s' = ds"
    "load (heap_G1 s') (A0 key) =
       Some (mk + smul (g3 + (\<Sum>i<length ids. smul (hv i) (ids ! i))) (n mod Order bn))"
    "load (heap_G2 s') (A1 key) = Some (smul g (n mod Order bn))"
    "length (B key) = l - length ids"
    "\<forall>j<l - length ids.
        load (heap_G1 s') (B key ! j) = Some (smul (hv (length ids + j)) (n mod Order bn))"
    by auto
  have "extends False s (snd (KeyGenFromMaster bn (Some a) master ids s))"
    by (rule keepsD1 [OF keeps_KeyGenFromMaster extends_refl])
  then have "extends False s s'" using r(1) by simp
  then show ?thesis
    using r a(1) by (auto simp add: key_for_def id_point_def)
qed

lemma id_point_butlast:
  assumes "ids \<noteq> []"
  shows "id_point g3 hv ids
    = id_point g3 hv (butlast ids) + smul (hv (length ids - 1)) (ids ! (length ids - 1))"
proof -
  obtain k where k: "length ids = Suc k" using assms by (cases ids) auto
  have "(\<Sum>i<k. smul (hv i) (butlast ids ! i)) = (\<Sum>i<k. smul (hv i) (ids ! i))"
    using k by (intro sum.cong) (simp_all add: nth_butlast)
  then show ?thesis
    using k by (simp add: id_point_def add.assoc)
qed

lemma smul_swap: "smul (smul a j) k = smul (smul a k) j"
  by (simp add: smul_smul mult.commute)

lemma KeyGenFromParent_key:
  fixes s :: "('a::ab_group_add, 'b::ab_group_add, 'c) store"
  assumes "params_vals s params g g1 g2 g3 hv l" and "ids \<noteq> []" and "length ids \<le> l"
    and "reader s = Inr n # ds" and "key_for s mk g g3 hv l (butlast ids) r parent"
  shows "\<exists>key s'. KeyGenFromParent bn params parent ids s = (Inr key, s') \<and>
     reader s' = ds \<and> extends False s s' \<and>
     key_for s' mk g g3 hv l ids (r + n mod Order bn) key"
proof -
  let ?t = "n mod Order bn"
  define kp where "kp = length ids - 1"
  have lk: "length ids = Suc kp" using assms(2) by (cases ids) (simp_all add: kp_def)
  have lb: "length (butlast ids) = kp" by (simp add: kp_def)
  from assms(1) obtain a where a: "params = Some a" "a < length (heap_Params s)"
    and v: "length (H (heap_Params s ! a)) = l"
      "load (heap_G2 s) (G (heap_Params s ! a)) = Some g"
      "load (heap_G1 s) (G3 (heap_Params s ! a)) = Some g3"
      "\<forall>i<l. load (heap_G1 s) (H (heap_Params s ! a) ! i) = Some (hv i)"
    unfolding params_vals_def by blast
  from assms(5) have p: "load (heap_G1 s) (A0 parent) = Some (mk + smul (id_point g3 hv (butlast ids)) r)"
    "load (heap_G2 s) (A1 parent) = Some (smul g r)"
    "length (B parent) = l - kp"
    "\<forall>j<l - kp. load (heap_G1 s) (B parent ! j) = Some (smul (hv (kp + j)) r)"
    unfolding key_for_def lb by blast+
  have pl: "length (B parent) = Suc (length (H (heap_Params s ! a)) - length ids)"
    using p(3) assms(3) lk v(1) by simp
  have pb: "\<forall>j<length (B parent). load (heap_G1 s) (B parent ! j) = Some (smul (hv (kp + j)) r)"
    using p(3,4) by simp
  have kl: "length ids \<le> length (H (heap_Params s ! a))" using assms(3) v(1) by simp
  have hs: "\<forall>i<length (H (heap_Params s ! a)). load (heap_G1 s) (H (heap_Params s ! a) ! i) = Some (hv i)"
    using v(1,4) by simp
  from KeyGenFromParent_run [where bn = bn and ids = ids and hv = hv
      and pv = "\<lambda>j. smul (hv (kp + j)) r",
      OF a(2) refl kl assms(2) assms(4) v(3) hs v(2) p(1) p(2) pl pb]
  obtain key s' where r: "KeyGenFromParent bn (Some a) parent ids s = (Inr key, s')"
    "reader s' = ds"
    "load (heap_G1 s') (A0 key) =
       Some (mk + smul (id_point g3 hv (butlast ids)) r
          + smul (smul (hv (kp + 0)) r) (ids ! (length ids - 1))
          + smul (g3 + (\<Sum>i<length ids. smul (hv i) (ids ! i))) ?t)"
    "load (heap_G2 s') (A1 key) = Some (smul g r + smul g ?t)"
    "length (B key) = length (H (heap_Params s ! a)) - length ids"
    "\<forall>j<length (H (heap_Params s ! a)) - length ids. load (heap_G1 s') (B key ! j)
          = Some (smul (hv (kp + Suc j)) r + smul (hv (length ids + j)) ?t)"
    by blast
  have "extends False s (snd (KeyGenFromParent bn (Some a) parent ids s))"
    by (rule keepsD1 [OF keeps_KeyGenFromParent extends_refl])
  then have e: "extends False s s'" using r(1) by simp
  have "smul (id_point g3 hv ids) r
      = smul (id_point g3 hv (butlast ids)) r
        + smul (smul (hv (length ids - 1)) (ids ! (length ids - 1))) r"
    by (simp only: id_point_butlast [OF assms(2), of g3 hv] smul_add_left)
  also have "smul (smul (hv (length ids - 1)) (ids ! (length ids - 1))) r
      = smul (smul (hv (length ids - 1)) r) (ids ! (length ids - 1))"
    by (rule smul_swap)
  finally have a0: "mk + smul (id_point g3 hv (butlast ids)) r
          + smul (smul (hv (length ids - 1)) r) (ids ! (length ids - 1))
          + smul (id_point g3 hv ids) ?t
        = mk + smul (id_point g3 hv ids) (r + ?t)"
    by (simp only: smul_add_right add.assoc)
  have k0: "kp + 0 = length ids - 1" by (simp add: kp_def)
  have k2: "\<And>j. kp + Suc j = length ids + j" by (simp add: lk)
  have 1: "load (heap_G1 s') (A0 key) = Some (mk + smul (id_point g3 hv ids) (r + ?t))"
    using r(3) unfolding k0 id_point_def [symmetric] by (simp only: a0)
  have 2: "load (heap_G2 s') (A1 key) = Some (smul g (r + ?t))"
    using r(4) by (simp only: smul_add_right)
  have 3: "\<forall>j<l - length ids. load (heap_G1 s') (B key ! j)
      = Some (smul (hv (length ids + j)) (r + ?t))"
    using r(6) unfolding k2 v(1) by (simp only: smul_add_right)
  have 4: "length (B key) = l - length ids" using r(5) v(1) by simp
  show ?thesis
    using r(1,2) a(1) e 1 2 3 4 unfolding key_for_def by blast
qed

lemma cache_slot_Some:
  "cache_slot s (Some a) = (if a < length (heap_Params s) then Pairing (heap_Params s ! a) else None)"
  by (simp add: cache_slot_def)

lemma Encrypt_ct:
  fixes s :: "('a::ab_group_add, 'b::ab_group_add, 'c::ab_group_add) store"
  assumes "params_vals s params g g1 g2 g3 hv l" and "length ids \<le> l"
    and "reader s = Inr n # ds" and "load (heap_GT s) message = Some m"
    and "cache_slot s params = None \<or> cache_value s params = Some (Pairing_of bn g2 g1)"
  shows "\<exists>ct s'. Encrypt bn params ids message s = (Inr ct, s') \<and>
     reader s' = ds \<and> extends True s s' \<and>
     ct_for s' (Pairing_of bn g2 g1) g g3 hv ids (n mod Order bn) m ct \<and>
     cache_value s' params = Some (Pairing_of bn g2 g1)"
proof -
  from assms(1) obtain a where a: "params = Some a" "a < length (heap_Params s)"
    and v: "length (H (heap_Params s ! a)) = l"
      "load (heap_G2 s) (G (heap_Params s ! a)) = Some g"
      "load (heap_G2 s) (G1 (heap_Params s ! a)) = Some g1"
      "load (heap_G1 s) (G2 (heap_Params s ! a)) = Some g2"
      "load (heap_G1 s) (G3 (heap_Params s ! a)) = Some g3"
      "\<forall>i<l. load (heap_G1 s) (H (heap_Params s ! a) ! i) = Some (hv i)"
    unfolding params_vals_def by blast
  have kl: "length ids \<le> length (H (heap_Params s ! a))" using assms(2) v(1) by simp
  have hs: "\<forall>i<length (H (heap_Params s ! a)). load (heap_G1 s) (H (heap_Params s ! a) ! i) = Some (hv i)"
    using v(1,6) by simp
  have ext: "extends True s (snd (Encrypt bn (Some a) ids message s))"
    by (rule keepsD1 [OF keeps_Encrypt extends_refl])
  show ?thesis
  proof (cases "Pairing (heap_Params s ! a)")
    case None
    from Encrypt_run [where bn = bn and ids = ids and hv = hv,
        OF a(2) refl kl assms(3) v(5) hs v(2) v(4) v(3) None assms(4)]
    obtain ct s' where r: "Encrypt bn (Some a) ids message s = (Inr ct, s')" "reader s' = ds"
      "heap_Params s' = (heap_Params s)[a := (heap_Params s ! a)\<lparr>Pairing := Some (length (heap_GT s))\<rparr>]"
      "load (heap_GT s') (Some (length (heap_GT s))) = Some (Pairing_of bn g2 g1)"
      "load (heap_GT s') (ct_A ct) = Some (smul (Pairing_of bn g2 g1) (n mod Order bn) + m)"
      "load (heap_G2 s') (ct_B ct) = Some (smul g (n mod Order bn))"
      "load (heap_G1 s') (ct_C ct) =
         Some (smul (g3 + (\<Sum>i<length ids. smul (hv i) (ids ! i))) (n mod Order bn))"
      by blast
    have "cache_value s' (Some a) = Some (Pairing_of bn g2 g1)"
      using r(3,4) a(2) by (simp add: cache_value_def cache_slot_Some)
    then show ?thesis
      using r(1,2,5,6,7) ext a(1) by (auto simp add: ct_for_def id_point_def)
  next
    case (Some c)
    then have "cache_value s params = Some (Pairing_of bn g2 g1)"
      using assms(5) a by (simp add: cache_slot_Some)
    then have c: "load (heap_GT s) (Some c) = Some (Pairing_of bn g2 g1)"
      using Some a by (simp add: cache_value_def cache_slot_Some)
    from Encrypt_run_cached [where bn = bn and ids = ids and hv = hv,
        OF a(2) refl kl assms(3) v(5) hs v(2) Some c assms(4)]
    obtain ct s' where r: "Encrypt bn (Some a) ids message s = (Inr ct, s')" "reader s' = ds"
      "heap_Params s' = heap_Params s"
      "load (heap_GT s') (ct_A ct) = Some (smul (Pairing_of bn g2 g1) (n mod Order bn) + m)"
      "load (heap_G2 s') (ct_B ct) = Some (smul g (n mod Order bn))"
      "load (heap_G1 s') (ct_C ct) =
         Some (smul (g3 + (\<Sum>i<length ids. smul (hv i) (ids ! i))) (n mod Order bn))"
      by blast
    have e: "extends True s s'" using ext r(1) by simp
    have "cache_value s' (Some a) = Some (Pairing_of bn g2 g1)"
      using r(3) a(2) Some extends_load_GT [OF e c]
      by (simp add: cache_value_def cache_slot_Some)
    then show ?thesis
      using r(1,2,4,5,6) e a(1) by (auto simp add: ct_for_def id_point_def)
  qed
qed

lemma Decrypt_plain:
  fixes s :: "('a::ab_group_add, 'b::ab_group_add, 'c::ab_group_add) store"
  assumes "bilinear (Pairing_of bn)"
    and "key_for s (smul g2 alpha) g g3 hv l ids r key"
    and "ct_for s (Pairing_of bn g2 (smul g alpha)) g g3 hv ids t m ct"
  shows "\<exists>pt s'. Decrypt bn key ct s = (Inr pt, s') \<and> reader s' = reader s \<and>
     extends False s s' \<and> load (heap_GT s') pt = Some m"
proof -
  let ?P = "id_point g3 hv ids"
  from assms(2) have k: "load (heap_G1 s) (A0 key) = Some (smul g2 alpha + smul ?P r)"
    "load (heap_G2 s) (A1 key) = Some (smul g r)"
    unfolding key_for_def by blast+
  from assms(3) have c: "load (heap_GT s) (ct_A ct) = Some (smul (Pairing_of bn g2 (smul g alpha)) t + m)"
    "load (heap_G2 s) (ct_B ct) = Some (smul g t)"
    "load (heap_G1 s) (ct_C ct) = Some (smul ?P t)"
    unfolding ct_for_def by blast+
  from Decrypt_run [where bn = bn, OF k c]
  obtain pt s' where r: "Decrypt bn key ct s = (Inr pt, s')" "reader s' = reader s"
    "load (heap_GT s') pt = Some ((smul (Pairing_of bn g2 (smul g alpha)) t + m)
       + (Pairing_of bn (smul ?P t) (smul g r)
          + - Pairing_of bn (smul g2 alpha + smul ?P r) (smul g t)))"
    by blast
  have "extends False s (snd (Decrypt bn key ct s))"
    by (rule keepsD1 [OF keeps_Decrypt extends_refl])
  then have e: "extends False s s'" using r(1) by simp
  have "load (heap_GT s') pt = Some m"
    using r(3) by (simp only: decrypt_algebra [OF assms(1)])
  then show ?thesis
    using r(1,2) e by blast
qed

lemma Setup_vals:
  fixes s :: "('a::ab_group_add, 'b::ab_group_add, 'c) store"
  assumes "Setup bn l s = (Inr (params, master), s')"
  shows "\<exists>g g2 g3 hv alpha. 0 \<le> l \<and> params_vals s' params g (smul g alpha) g2 g3 hv (nat l) \<and>
     cache_slot s' params = None \<and> load (heap_G1 s') master = Some (smul g2 alpha) \<and>
     extends False s s'"
proof -
  have "extends False s (snd (Setup bn l s))"
    by (rule keepsD1 [OF keeps_Setup extends_refl])
  then have "extends False s s'" using assms by simp
  with Setup_spec [OF assms] show ?thesis
    unfolding params_vals_def by (fastforce simp add: cache_slot_Some)
qed

text \<open>Encryption for an identity, then decryption with a key for that identity.\<close>

lemma round_trip_core:
  fixes s :: "('a::ab_group_add, 'b::ab_group_add, 'c::ab_group_add) store"
  assumes "bilinear (Pairing_of bn)"
    and "params_vals s params g (smul g alpha) g2 g3 hv l"
    and "key_for s (smul g2 alpha) g g3 hv l ids r key"
    and "length ids \<le> l" and "reader s = Inr n # ds"
    and "load (heap_GT s) message = Some m"
    and "cache_slot s params = None \<or>
         cache_value s params = Some (Pairing_of bn g2 (smul g alpha))"
  shows "\<exists>ct s' pt s''. Encrypt bn params ids message s = (Inr ct, s') \<and>
     Decrypt bn key ct s' = (Inr pt, s'') \<and> load (heap_GT s'') pt = Some m \<and>
     reader s'' = ds \<and> extends True s s' \<and> extends False s' s'' \<and>
     ct_for s' (Pairing_of bn g2 (smul g alpha)) g g3 hv ids (n mod Order bn) m ct"
proof -
  from Encrypt_ct [OF assms(2,4,5,6,7)]
  obtain ct s' where e: "Encrypt bn params ids message s = (Inr ct, s')" "reader s' = ds"
    "extends True s s'"
    "ct_for s' (Pairing_of bn g2 (smul g alpha)) g g3 hv ids (n mod Order bn) m ct"
    by blast
  from Decrypt_plain [OF assms(1) key_for_extends [OF e(3) assms(3)] e(4)]
  obtain pt s'' where d: "Decrypt bn key ct s' = (Inr pt, s'')" "reader s'' = reader s'"
    "extends False s' s''" "load (heap_GT s'') pt = Some m"
    by blast
  show ?thesis using e d by auto
qed

text \<open>The chain of delegations.\<close>

lemma delegate_key:
  fixes s :: "('a::ab_group_add, 'b::ab_group_add, 'c) store"
  shows "params_vals s params g g1 g2 g3 hv l \<Longrightarrow> key_for s mk g g3 hv l path r key \<Longrightarrow>
    length path + length xs \<le> l \<Longrightarrow> reader s = map Inr ns @ ds \<Longrightarrow> length ns = length xs \<Longrightarrow>
    \<exists>key' s' r'. delegate bn params path xs key s = (Inr key', s') \<and> reader s' = ds \<and>
      extends False s s' \<and> key_for s' mk g g3 hv l (path @ xs) r' key'"
proof (induction xs arbitrary: path key s r ns)
  case Nil
  then show ?case
    by (auto simp add: return_app extends_refl)
next
  case (Cons x xs)
  from Cons.prems(5) obtain n ns' where ns: "ns = n # ns'" "length ns' = length xs"
    by (cases ns) auto
  have rd: "reader s = Inr n # (map Inr ns' @ ds)" using Cons.prems(4) ns by simp
  have ne: "path @ [x] \<noteq> []" by simp
  have le: "length (path @ [x]) \<le> l" using Cons.prems(3) by simp
  have kf: "key_for s mk g g3 hv l (butlast (path @ [x])) r key" using Cons.prems(2) by simp
  from KeyGenFromParent_key [where bn = bn, OF Cons.prems(1) ne le rd kf]
  obtain k1 s1 where k1: "KeyGenFromParent bn params key (path @ [x]) s = (Inr k1, s1)"
    "reader s1 = map Inr ns' @ ds" "extends False s s1"
    "key_for s1 mk g g3 hv l (path @ [x]) (r + n mod Order bn) k1"
    by blast
  have le': "length (path @ [x]) + length xs \<le> l" using Cons.prems(3) by simp
  from Cons.IH [OF params_vals_extends [OF k1(3) Cons.prems(1)] k1(4) le' k1(2) ns(2)]
  obtain key' s' r' where k': "delegate bn params (path @ [x]) xs k1 s1 = (Inr key', s')"
    "reader s' = ds" "extends False s1 s'"
    "key_for s' mk g g3 hv l ((path @ [x]) @ xs) r' key'"
    by blast
  have "delegate bn params path (x # xs) key s = (Inr key', s')"
    using k1(1) k'(1) by (simp add: bind_p_app)
  then show ?case
    using k'(2,4) extends_trans [OF k1(3) k'(3)] by auto
qed

lemma KeyGenByDelegation_key:
  fixes s :: "('a::ab_group_add, 'b::ab_group_add, 'c) store"
  assumes "params_vals s params g g1 g2 g3 hv l" and "length ids \<le> l"
    and "reader s = Inr n # map Inr ns @ ds" and "length ns = length ids"
    and "load (heap_G1 s) master = Some mk"
  shows "\<exists>key s' r. KeyGenByDelegation bn params master ids s = (Inr key, s') \<and>
     reader s' = ds \<and> extends False s s' \<and> key_for s' mk g g3 hv l ids r key"
proof -
  have rd: "reader s = Inr n # (map Inr ns @ ds)" using assms(3) by simp
  have l0: "length ([] :: nat list) \<le> l" by simp
  from KeyGenFromMaster_key [where bn = bn, OF assms(1) l0 rd assms(5)]
  obtain k0 s0 where k0: "KeyGenFromMaster bn params master [] s = (Inr k0, s0)"
    "reader s0 = map Inr ns @ ds" "extends False s s0"
    "key_for s0 mk g g3 hv l [] (n mod Order bn) k0"
    by blast
  have l1: "length ([] :: nat list) + length ids \<le> l" using assms(2) by simp
  from delegate_key [where bn = bn,
      OF params_vals_extends [OF k0(3) assms(1)] k0(4) l1 k0(2) assms(4)]
  obtain key s' r where k: "delegate bn params [] ids k0 s0 = (Inr key, s')"
    "reader s' = ds" "extends False s0 s'" "key_for s' mk g g3 hv l ids r key"
    by auto
  have "KeyGenByDelegation bn params master ids s = (Inr key, s')"
    using k0(1) k(1) by (simp add: KeyGenByDelegation_def bind_p_app)
  then show ?thesis
    using k(2,4) extends_trans [OF k0(3) k(3)] by auto
qed

text \<open>The loop of \<open>Setup\<close> that fills \<open>params.H\<close> ends as its draws do.\<close>

lemma Setup_loop_reads:
  fixes s :: "('a::ab_group_add, 'b, 'c) store"
  shows "a < length (heap_Params s) \<Longrightarrow>
    fst (for_loop is (\<lambda>i _.
       bind_p (RandomG1 bn) (\<lambda>h.
       set_Params (Some a) (\<lambda>prm. prm\<lparr>H := (H prm)[i := h]\<rparr>))) () s)
      = fst (draws (Order bn) (length is) (reader s)) \<and>
    reader (snd (for_loop is (\<lambda>i _.
       bind_p (RandomG1 bn) (\<lambda>h.
       set_Params (Some a) (\<lambda>prm. prm\<lparr>H := (H prm)[i := h]\<rparr>))) () s))
      = snd (draws (Order bn) (length is) (reader s))"
  (is "_ \<Longrightarrow> fst (for_loop _ ?body _ _) = _ \<and> _")
proof (induction "is" arbitrary: s)
  case Nil
  show ?case by (simp add: return_app)
next
  case (Cons i "is")
  obtain r d where rn: "random_nonzero (Order bn) (reader s) = (r, d)" by force
  show ?case
  proof (cases r)
    case (Inl f)
    then show ?thesis using rn by (simp add: bind_p_app RandomG1_app)
  next
    case (Inr k)
    let ?s = "s\<lparr>reader := d, heap_G1 := heap_G1 s @ [Some (smul (Base1 bn) k)],
        heap_Params := (heap_Params s)[a := (heap_Params s ! a)
          \<lparr>H := (H (heap_Params s ! a))[i := Some (length (heap_G1 s))]\<rparr>]\<rparr>"
    have b: "?body i () s = (Inr (), ?s)"
      using rn Inr Cons.prems by (simp add: bind_p_app RandomG1_app set_Params_app)
    have "a < length (heap_Params ?s)" using Cons.prems by simp
    from Cons.IH [OF this] show ?thesis
      using rn Inr by (simp add: bind_p_Inr [where m = "?body i ()" and s = s, OF b])
  qed
qed

text \<open>\<open>Setup\<close> ends as its reads do.\<close>

lemma Setup_reads_run:
  fixes s :: "('a::ab_group_add, 'b::ab_group_add, 'c) store"
  shows "(\<forall>f ds. Setup_reads (Order bn) l (reader s) = (Inl f, ds) \<longrightarrow>
            fst (Setup bn l s) = Inl f \<and> reader (snd (Setup bn l s)) = ds) \<and>
         (\<forall>ds. Setup_reads (Order bn) l (reader s) = (Inr (), ds) \<and> 0 \<le> l \<longrightarrow>
            (\<exists>p. fst (Setup bn l s) = Inr p) \<and> reader (snd (Setup bn l s)) = ds)"
proof -
  let ?a = "length (heap_Params s)"
  obtain r1 d1 where rn1: "random_nonzero (Order bn) (reader s) = (r1, d1)" by force
  show ?thesis
  proof (cases r1)
    case (Inl f1)
    then show ?thesis using rn1 by (simp add: Setup_reads_def Setup_def exec)
  next
    case r1: (Inr k1)
    show ?thesis
    proof (cases d1)
      case Nil
      then show ?thesis using rn1 r1 by (simp add: Setup_reads_def Setup_def exec nth_append)
    next
      case (Cons x d2)
      show ?thesis
      proof (cases x)
        case (Inl e)
        then show ?thesis
          using rn1 r1 Cons by (simp add: Setup_reads_def Setup_def exec nth_append)
      next
        case (Inr n)
        with Cons have d1: "d1 = Inr n # d2" by simp
        obtain r2 d3 where rn2: "random_nonzero (Order bn) d2 = (r2, d3)" by force
        show ?thesis
        proof (cases r2)
          case (Inl f2)
          then show ?thesis
            using rn1 r1 d1 rn2
            by (simp add: Setup_reads_def Setup_def exec nth_append eval_nat_numeral)
        next
          case r2: (Inr k2)
          obtain r3 d4 where rn3: "random_nonzero (Order bn) d3 = (r3, d4)" by force
          show ?thesis
          proof (cases r3)
            case (Inl f3)
            then show ?thesis
              using rn1 r1 d1 rn2 r2 rn3
              by (simp add: Setup_reads_def Setup_def exec nth_append eval_nat_numeral)
          next
            case r3: (Inr k3)
            have sr: "Setup_reads (Order bn) l (reader s) = draws (Order bn) (nat l) d4"
              using rn1 r1 d1 rn2 r2 rn3 r3 by (simp add: Setup_reads_def eval_nat_numeral)
            show ?thesis
            proof (cases "l < 0")
              case True
              then show ?thesis by (simp add: sr)
            next
              case False
              then have l: "0 \<le> l" by simp
              let ?S = "s\<lparr>heap_G2 :=
                     (heap_G2 s @ [Some (smul (Base2 bn) k1), None])
                     [Suc (length (heap_G2 s)) :=
                        Some (smul (smul (Base2 bn) k1) (n mod Order bn))],
                     reader := d4,
                     heap_G1 :=
                       heap_G1 s @
                       [Some (smul (Base1 bn) k2),
                        Some (smul (Base1 bn) k3)],
                     heap_Params :=
                       heap_Params s @
                       [\<lparr>G = Some (length (heap_G2 s)),
                           G1 = Some (Suc (length (heap_G2 s))),
                           G2 = Some (length (heap_G1 s)),
                           G3 = Some (Suc (length (heap_G1 s))),
                           H = replicate (nat l) None, Pairing = None\<rparr>]\<rparr>"
              let ?loop = "for_loop [0..<nat l] (\<lambda>i _.
                 bind_p (RandomG1 bn) (\<lambda>h.
                 set_Params (Some ?a) (\<lambda>prm. prm\<lparr>H := (H prm)[i := h]\<rparr>))) ()"
              obtain r4 s4 where lp: "?loop ?S = (r4, s4)" by force
              have "?a < length (heap_Params ?S)" by simp
              from Setup_loop_reads [OF this, of "[0..<nat l]" bn]
              have rd: "r4 = fst (draws (Order bn) (nat l) d4)"
                "reader s4 = snd (draws (Order bn) (nat l) d4)"
                by (simp_all add: lp)
              show ?thesis
              proof (cases r4)
                case (Inl f4)
                have "Setup bn l s = (Inl f4, s4)"
                  using rn1 r1 d1 rn2 r2 rn3 r3 l lp Inl
                  by (simp add: Setup_def exec nth_append)
                then show ?thesis
                  using rd Inl by (cases "draws (Order bn) (nat l) d4") (auto simp add: sr)
              next
                case (Inr u)
                then have r4: "r4 = Inr ()" by simp
                from Setup_loop [of ?a ?S "nat l" bn s4] lp r4 obtain ks ds where
                  ks: "length ks = nat l"
                  and s4: "s4 = ?S\<lparr>reader := ds,
                     heap_G1 := heap_G1 ?S @ map (\<lambda>k. Some (smul (Base1 bn) k)) ks,
                     heap_Params := (heap_Params ?S)[?a := (heap_Params ?S ! ?a)
                       \<lparr>H := map (\<lambda>i. Some (length (heap_G1 ?S) + i)) [0..<nat l]
                             @ drop (nat l) (H (heap_Params ?S ! ?a))\<rparr>]\<rparr>"
                  by auto
                have ds: "ds = reader s4" by (simp add: s4)
                have "(\<exists>p. fst (Setup bn l s) = Inr p) \<and> reader (snd (Setup bn l s)) = ds"
                  using rn1 r1 d1 rn2 r2 rn3 r3 l lp r4 ks
                  by (auto simp add: Setup_def exec nth_append s4)
                then show ?thesis
                  using rd r4 ds by (cases "draws (Order bn) (nat l) d4") (auto simp add: sr)
              qed
            qed
          qed
        qed
      qed
    qed
  qed
qed

lemma MaximumDepth_Inr:
  "MaximumDepth params s = (Inr l, s') \<Longrightarrow>
     \<exists>a. params = Some a \<and> a < length (heap_Params s) \<and> length (H (heap_Params s ! a)) = l"
  by (auto simp add: MaximumDepth_def get_Params_app split: option.splits if_splits)

text \<open>
  C3, as the code has it. When the identity is deeper than the hierarchy, both key
  generations panic with the depth message before anything else is done: the store is as
  it was (nothing read from the reader, nothing allocated), and there is no key. The
  failure is the panic, not a value of the \<open>error\<close> result.
\<close>

theorem depth_exceeded_panics:
  assumes "MaximumDepth params s = (Inr l, s)" and "l < length ids"
  shows "KeyGenFromMaster bn params master ids s = (Inl (Panic Depth_exceeded), s) \<and>
         KeyGenFromParent bn params parent ids s = (Inl (Panic Depth_exceeded), s)"
proof -
  from MaximumDepth_Inr [OF assms(1)] obtain a where
    "params = Some a" "a < length (heap_Params s)" "length (H (heap_Params s ! a)) = l"
    by blast
  then show ?thesis
    using assms(2)
    by (simp add: KeyGenFromMaster_def KeyGenFromParent_def Let_def bind_p_app get_Params_app
          throw_app)
qed

lemmas toy_defs = toy_bn_def toy_store_def toy_init_def

theorem depth_exceeded_panics_witness:
  "MaximumDepth (Some 0) toy_store = (Inr 2, toy_store) \<and> 2 < length [1, 2, 3 :: nat] \<and>
   KeyGenFromMaster toy_bn (Some 0) (Some 4) [1, 2, 3] toy_store
     = (Inl (Panic Depth_exceeded), toy_store) \<and>
   KeyGenFromParent toy_bn (Some 0) \<lparr>A0 = Some 4, A1 = Some 1, B = []\<rparr> [1, 2, 3] toy_store
     = (Inl (Panic Depth_exceeded), toy_store)"
proof -
  have m: "MaximumDepth (Some 0) toy_store = (Inr 2, toy_store)"
    by (simp add: MaximumDepth_def get_Params_app toy_defs)
  have l: "2 < length [1, 2, 3 :: nat]" by simp
  show ?thesis
    using m l depth_exceeded_panics [OF m l, of toy_bn "Some 4" "\<lparr>A0 = Some 4, A1 = Some 1, B = []\<rparr>"]
    by simp
qed

text \<open>
  C3, as the claim states it, fails: the call does not come back with an \<open>error\<close> value.
\<close>

theorem depth_exceeded_counterexample:
  "\<not> returns_error (fst (KeyGenFromMaster toy_bn (Some 0) (Some 4) [1, 2, 3] toy_store))"
  by (simp add: KeyGenFromMaster_def Let_def bind_p_app get_Params_app throw_app toy_defs
        returns_error_def)

text \<open>
  C8. Every group element of the store a call starts from is, when the call ends (with a
  result or a failure), where it was with the value it had, and every \<open>Params\<close> struct is
  as it was, but for the pairing slot that \<open>Encrypt\<close> may fill. This covers \<open>G\<close>, \<open>G1\<close>,
  \<open>G2\<close>, \<open>G3\<close>, every \<open>H[i]\<close>, and the \<open>A0\<close>, \<open>A1\<close>, \<open>B[j]\<close> of a parent key.
\<close>

theorem operations_keep_the_store:
  "extends False s (snd (KeyGenFromMaster bn params master ids s)) \<and>
   extends False s (snd (KeyGenFromParent bn params parent ids s)) \<and>
   extends True s (snd (Encrypt bn params ids message s)) \<and>
   extends False s (snd (Decrypt bn key ciphertext s))"
  by (intro conjI keepsD1 [OF keeps_KeyGenFromMaster extends_refl]
        keepsD1 [OF keeps_KeyGenFromParent extends_refl]
        keepsD1 [OF keeps_Encrypt extends_refl]
        keepsD1 [OF keeps_Decrypt extends_refl])

theorem operations_keep_the_store_witness:
  "extends False toy_store (snd (KeyGenFromMaster toy_bn (Some 0) (Some 4) [3] toy_store)) \<and>
   extends False toy_store
     (snd (KeyGenFromParent toy_bn (Some 0) \<lparr>A0 = Some 4, A1 = Some 1, B = [Some 2, Some 3]\<rparr> [3]
        toy_store)) \<and>
   extends True toy_store (snd (Encrypt toy_bn (Some 0) [3] (Some 0) toy_store)) \<and>
   extends False toy_store
     (snd (Decrypt toy_bn \<lparr>A0 = Some 4, A1 = Some 1, B = []\<rparr>
        \<lparr>ct_A = Some 0, ct_B = Some 1, ct_C = Some 0\<rparr> toy_store))"
  by (rule operations_keep_the_store)

lemmas run_simps = exec accumulate_def toy_defs Let_def smul_int upt_conv_Cons

lemma replicate_numeral_eq: "replicate (numeral k) x = x # replicate (pred_numeral k) x"
  by (simp add: numeral_eq_Suc)

text \<open>
  C4, as the code has it. A parent whose remaining depth is not \<open>l - k + 1\<close> makes
  \<open>KeyGenFromParent\<close> panic with the store as it was and no key: with the parent message
  when \<open>k \<le> l\<close>, and with the depth message, whose check comes first, when \<open>k > l\<close>.
\<close>

theorem parent_mismatch_panics:
  assumes "MaximumDepth params s = (Inr l, s)"
    and "int (DepthLeft parent) \<noteq> int l - int (length ids) + 1"
  shows "KeyGenFromParent bn params parent ids s =
     (Inl (Panic (if l < length ids then Depth_exceeded else Not_child_of_parent)), s)"
proof -
  from MaximumDepth_Inr [OF assms(1)] obtain a where
    "params = Some a" "a < length (heap_Params s)" "length (H (heap_Params s ! a)) = l"
    by blast
  then show ?thesis
    using assms(2)
    by (simp add: KeyGenFromParent_def Let_def bind_p_app get_Params_app throw_app)
qed

theorem parent_mismatch_panics_witness:
  "MaximumDepth (Some 0) toy_store = (Inr 2, toy_store) \<and>
   int (DepthLeft \<lparr>A0 = Some 4, A1 = Some 1, B = [Some 3]\<rparr>) \<noteq> int 2 - int (length [3 :: nat]) + 1 \<and>
   KeyGenFromParent toy_bn (Some 0) \<lparr>A0 = Some 4, A1 = Some 1, B = [Some 3]\<rparr> [3] toy_store
     = (Inl (Panic Not_child_of_parent), toy_store)"
proof -
  have m: "MaximumDepth (Some 0) toy_store = (Inr 2, toy_store)"
    by (simp add: MaximumDepth_def get_Params_app toy_defs)
  have d: "int (DepthLeft \<lparr>A0 = Some 4, A1 = Some 1, B = [Some 3]\<rparr>)
             \<noteq> int 2 - int (length [3 :: nat]) + 1"
    by (simp add: DepthLeft_def)
  show ?thesis
    using m d parent_mismatch_panics [OF m d, of toy_bn] by simp
qed

text \<open>
  C4, as the claim states it, fails where the identity is also too deep: the parent's
  remaining depth is not \<open>l - k + 1\<close>, and the failure is the depth panic.
\<close>

theorem parent_mismatch_counterexample:
  "int (DepthLeft \<lparr>A0 = Some 4, A1 = Some 1, B = [Some 3]\<rparr>)
     \<noteq> int 2 - int (length [1, 2, 3 :: nat]) + 1 \<and>
   fst (KeyGenFromParent toy_bn (Some 0) \<lparr>A0 = Some 4, A1 = Some 1, B = [Some 3]\<rparr> [1, 2, 3]
          toy_store) = Inl (Panic Depth_exceeded) \<and>
   fst (KeyGenFromParent toy_bn (Some 0) \<lparr>A0 = Some 4, A1 = Some 1, B = [Some 3]\<rparr> [1, 2, 3]
          toy_store) \<noteq> Inl (Panic Not_child_of_parent)"
  by (simp add: KeyGenFromParent_def DepthLeft_def Let_def bind_p_app get_Params_app throw_app
        toy_defs)

text \<open>The length of \<open>key.B\<close>.\<close>

lemma keeps_get_Params_old:
  "a < length (heap_Params s0) \<Longrightarrow>
     keeps (extends False s0) (get_Params (Some a) f) (\<lambda>x. x = f (heap_Params s0 ! a))"
  by (auto simp add: keeps_def get_Params_app extends_def params_kept_def)

lemma keeps_B_length:
  assumes "\<And>j bs. keeps I (body j bs) (\<lambda>bs'. length bs' = length bs)"
  shows "keeps I (for_loop is body bs) (\<lambda>bs'. length bs' = length bs)"
proof (induction "is" arbitrary: bs)
  case Nil
  show ?case by (simp add: keeps_return)
next
  case (Cons i "is")
  show ?case
    unfolding for_loop.simps
  proof (rule keeps_bind [OF assms])
    fix x :: "'a list" assume "length x = length bs"
    then show "keeps I (for_loop is body x) (\<lambda>bs'. length bs' = length bs)"
      using Cons.IH [of x] by simp
  qed
qed

lemma keeps_bind_B_loop:
  assumes "\<And>j bs. keeps I (body j bs) (\<lambda>bs'. length bs' = length bs)"
    and "\<And>bs. length bs = n \<Longrightarrow> keeps I (f bs) F"
  shows "keeps I (bind_p (for_loop is body (replicate n x)) f) F"
  by (rule keeps_bind [OF keeps_B_length [OF assms(1)]]) (simp add: assms(2))

lemma keeps_KeyGenFromMaster_B:
  assumes "a < length (heap_Params s)"
  shows "keeps (extends False s) (KeyGenFromMaster bn (Some a) master ids)
     (\<lambda>key. length ids \<le> length (H (heap_Params s ! a)) \<and>
        length (B key) = length (H (heap_Params s ! a)) - length ids)"
  unfolding KeyGenFromMaster_def Let_def
  apply (rule keeps_bind [OF keeps_get_Params_old [OF assms]])
  apply (intro keeps_bind_B_loop keeps_seq keeps_bind [OF keeps_accumulate] keeps_return)
  apply simp_all
  done

lemma keeps_KeyGenFromParent_B:
  assumes "a < length (heap_Params s)"
  shows "keeps (extends False s) (KeyGenFromParent bn (Some a) parent ids)
     (\<lambda>key. length ids \<le> length (H (heap_Params s ! a)) \<and>
        length (B key) = length (H (heap_Params s ! a)) - length ids)"
  unfolding KeyGenFromParent_def Let_def
  apply (rule keeps_bind [OF keeps_get_Params_old [OF assms]])
  apply (intro keeps_bind_B_loop keeps_seq keeps_bind [OF keeps_accumulate] keeps_return)
  apply simp_all
  done

text \<open>
  C5. A key that \<open>KeyGenFromMaster\<close> or \<open>KeyGenFromParent\<close> returns for an identity of
  depth \<open>k\<close> under parameters of maximum depth \<open>l\<close> has \<open>k \<le> l\<close> and a \<open>B\<close> of exactly
  \<open>l - k\<close> elements, and \<open>DepthLeft\<close> is that number.
\<close>

theorem delegation_vector_length:
  assumes "MaximumDepth params s = (Inr l, s)"
  shows "(KeyGenFromMaster bn params master ids s = (Inr key, s') \<longrightarrow>
            int (length (B key)) = int l - int (length ids) \<and> DepthLeft key = length (B key)) \<and>
         (KeyGenFromParent bn params parent ids' s = (Inr key', s'') \<longrightarrow>
            int (length (B key')) = int l - int (length ids') \<and> DepthLeft key' = length (B key'))"
proof -
  from MaximumDepth_Inr [OF assms] obtain a where
    a: "params = Some a" "a < length (heap_Params s)" "length (H (heap_Params s ! a)) = l"
    by blast
  show ?thesis
    using keepsD2 [OF keeps_KeyGenFromMaster_B [OF a(2)] extends_refl, of bn master ids key s']
      keepsD2 [OF keeps_KeyGenFromParent_B [OF a(2)] extends_refl, of bn parent ids' key' s'']
      a(1,3)
    by (auto simp add: DepthLeft_def)
qed

theorem delegation_vector_length_witness:
  "MaximumDepth (Some 0) toy_store = (Inr 2, toy_store) \<and>
   fst (KeyGenFromMaster toy_bn (Some 0) (Some 4) [] toy_store)
     = Inr \<lparr>A0 = Some 6, A1 = Some 2, B = [Some 7, Some 8]\<rparr> \<and>
   int (length (B \<lparr>A0 = Some 6, A1 = Some 2, B = [Some 7, Some 8]\<rparr>)) = int 2 - int (length ([] :: nat list)) \<and>
   DepthLeft \<lparr>A0 = Some 6, A1 = Some 2, B = [Some 7, Some 8]\<rparr> = 2 \<and>
   fst (KeyGenFromParent toy_bn (Some 0) \<lparr>A0 = Some 4, A1 = Some 1, B = [Some 2, Some 3]\<rparr> [3]
          toy_store)
     = Inr \<lparr>A0 = Some 8, A1 = Some 2, B = [Some 9]\<rparr> \<and>
   int (length (B \<lparr>A0 = Some 8, A1 = Some 2, B = [Some 9]\<rparr>)) = int 2 - int (length [3 :: nat]) \<and>
   DepthLeft \<lparr>A0 = Some 8, A1 = Some 2, B = [Some 9]\<rparr> = 1"
proof -
  let ?p = "\<lparr>A0 = Some 4, A1 = Some 1, B = [Some 2, Some 3]\<rparr>"
  have m: "MaximumDepth (Some 0) toy_store = (Inr 2, toy_store)"
    by (simp add: MaximumDepth_def get_Params_app toy_defs)
  have k1: "fst (KeyGenFromMaster toy_bn (Some 0) (Some 4) [] toy_store)
      = Inr \<lparr>A0 = Some 6, A1 = Some 2, B = [Some 7, Some 8]\<rparr>"
    by (simp add: KeyGenFromMaster_def run_simps replicate_numeral_eq)
  have k2: "fst (KeyGenFromParent toy_bn (Some 0) ?p [3] toy_store)
      = Inr \<lparr>A0 = Some 8, A1 = Some 2, B = [Some 9]\<rparr>"
    by (simp add: KeyGenFromParent_def DepthLeft_def run_simps)
  have e1: "KeyGenFromMaster toy_bn (Some 0) (Some 4) [] toy_store
      = (Inr \<lparr>A0 = Some 6, A1 = Some 2, B = [Some 7, Some 8]\<rparr>,
         snd (KeyGenFromMaster toy_bn (Some 0) (Some 4) [] toy_store))"
    using k1 by (simp add: prod_eq_iff)
  have e2: "KeyGenFromParent toy_bn (Some 0) ?p [3] toy_store
      = (Inr \<lparr>A0 = Some 8, A1 = Some 2, B = [Some 9]\<rparr>,
         snd (KeyGenFromParent toy_bn (Some 0) ?p [3] toy_store))"
    using k2 by (simp add: prod_eq_iff)
  show ?thesis
    using m k1 k2 e1 e2
      delegation_vector_length [OF m, of toy_bn "Some 4" "[]"
        "\<lparr>A0 = Some 6, A1 = Some 2, B = [Some 7, Some 8]\<rparr>"
        "snd (KeyGenFromMaster toy_bn (Some 0) (Some 4) [] toy_store)"
        ?p "[3]" "\<lparr>A0 = Some 8, A1 = Some 2, B = [Some 9]\<rparr>"
        "snd (KeyGenFromParent toy_bn (Some 0) ?p [3] toy_store)"]
    by simp
qed

text \<open>
  C1. Round trip. After a \<open>Setup\<close> with maximum depth \<open>l\<close>, for an identity \<open>ids\<close> with
  \<open>0 < len(ids) \<le> l\<close> and a message \<open>m\<close> of \<open>GT\<close>, and a reader whose next two reads
  succeed: \<open>KeyGenFromMaster\<close> returns a key, \<open>Encrypt\<close> returns a ciphertext, and
  \<open>Decrypt\<close> of that ciphertext with that key returns an element whose value is \<open>m\<close>.
\<close>

theorem round_trip:
  fixes s0 :: "('a::ab_group_add, 'b::ab_group_add, 'c::ab_group_add) store"
  assumes "bilinear (Pairing_of bn)"
    and "Setup bn l s0 = (Inr (params, master), s1)"
    and "ids \<noteq> []" and "int (length ids) \<le> l"
    and "load (heap_GT s1) message = Some m"
    and "reader s1 = Inr n1 # Inr n2 # ds"
  shows "\<exists>key s2 ct s3 pt s4.
     KeyGenFromMaster bn params master ids s1 = (Inr key, s2) \<and>
     Encrypt bn params ids message s2 = (Inr ct, s3) \<and>
     Decrypt bn key ct s3 = (Inr pt, s4) \<and>
     load (heap_GT s4) pt = Some m"
proof -
  from Setup_vals [OF assms(2)] obtain g g2 g3 hv alpha where
    v: "params_vals s1 params g (smul g alpha) g2 g3 hv (nat l)"
    and c: "cache_slot s1 params = None"
    and mk: "load (heap_G1 s1) master = Some (smul g2 alpha)"
    by blast
  have le: "length ids \<le> nat l" using assms(4) by simp
  from KeyGenFromMaster_key [where bn = bn, OF v le assms(6) mk]
  obtain key s2 where k: "KeyGenFromMaster bn params master ids s1 = (Inr key, s2)"
    "reader s2 = Inr n2 # ds" "extends False s1 s2"
    "key_for s2 (smul g2 alpha) g g3 hv (nat l) ids (n1 mod Order bn) key"
    by blast
  have c2: "cache_slot s2 params = None \<or>
      cache_value s2 params = Some (Pairing_of bn g2 (smul g alpha))"
    using c k(3) v
    by (auto simp add: params_vals_def extends_def params_kept_def cache_slot_Some)
  from round_trip_core [OF assms(1) params_vals_extends [OF k(3) v] k(4) le k(2)
      extends_load_GT [OF k(3) assms(5)] c2]
  show ?thesis using k(1) by blast
qed

lemma toy_bilinear: "bilinear (Pairing_of toy_bn)"
  by (simp add: toy_bn_def bilinear_def algebra_simps)

lemma toy_Setup: "Setup toy_bn 2 toy_init = (Inr (Some 0, Some 4), toy_store)"
  by (simp add: Setup_def run_simps replicate_numeral_eq)

theorem round_trip_witness:
  "bilinear (Pairing_of toy_bn) \<and>
   Setup toy_bn 2 toy_init = (Inr (Some 0, Some 4), toy_store) \<and>
   [3, 7 :: nat] \<noteq> [] \<and> int (length [3, 7 :: nat]) \<le> 2 \<and>
   load (heap_GT toy_store) (Some 0) = Some 42 \<and>
   reader toy_store = Inr 23 # Inr 29 # [Inr 31, Inr 37, Inr 41, Inr 43] \<and>
   (\<exists>key s2 ct s3 pt s4.
     KeyGenFromMaster toy_bn (Some 0) (Some 4) [3, 7] toy_store = (Inr key, s2) \<and>
     Encrypt toy_bn (Some 0) [3, 7] (Some 0) s2 = (Inr ct, s3) \<and>
     Decrypt toy_bn key ct s3 = (Inr pt, s4) \<and>
     load (heap_GT s4) pt = Some 42)"
proof -
  have 3: "[3, 7 :: nat] \<noteq> []" by simp
  have 4: "int (length [3, 7 :: nat]) \<le> 2" by simp
  have 5: "load (heap_GT toy_store) (Some 0) = Some 42"
    by (simp add: load_Some toy_store_def)
  have 6: "reader toy_store = Inr 23 # Inr 29 # [Inr 31, Inr 37, Inr 41, Inr 43]"
    by (simp add: toy_store_def)
  show ?thesis
    by (intro conjI toy_bilinear toy_Setup 3 4 5 6
          round_trip [OF toy_bilinear toy_Setup 3 4 5 6])
qed

text \<open>
  C10. The root. After a \<open>Setup\<close>, \<open>KeyGenFromMaster\<close> for the empty identity returns a
  key with \<open>A0 = master + r g3\<close> and \<open>DepthLeft = l\<close>, \<open>Encrypt\<close> for the empty identity
  returns a ciphertext with \<open>C = t g3\<close>, and \<open>Decrypt\<close> of it with that key returns \<open>m\<close>
  (the groups are written additively; \<open>r\<close>, \<open>t\<close> are the two numbers read).
\<close>

theorem root_round_trip:
  fixes s0 :: "('a::ab_group_add, 'b::ab_group_add, 'c::ab_group_add) store"
  assumes "bilinear (Pairing_of bn)"
    and "Setup bn l s0 = (Inr (params, master), s1)"
    and "load (heap_GT s1) message = Some m"
    and "reader s1 = Inr n1 # Inr n2 # ds"
  shows "\<exists>a mk g3 key s2 ct s3 pt s4.
     params = Some a \<and> load (heap_G1 s1) (G3 (heap_Params s1 ! a)) = Some g3 \<and>
     load (heap_G1 s1) master = Some mk \<and>
     KeyGenFromMaster bn params master [] s1 = (Inr key, s2) \<and>
     load (heap_G1 s2) (A0 key) = Some (mk + smul g3 (n1 mod Order bn)) \<and>
     int (DepthLeft key) = l \<and>
     Encrypt bn params [] message s2 = (Inr ct, s3) \<and>
     load (heap_G1 s3) (ct_C ct) = Some (smul g3 (n2 mod Order bn)) \<and>
     Decrypt bn key ct s3 = (Inr pt, s4) \<and>
     load (heap_GT s4) pt = Some m"
proof -
  from Setup_vals [OF assms(2)] obtain g g2 g3 hv alpha where
    l: "0 \<le> l" and v: "params_vals s1 params g (smul g alpha) g2 g3 hv (nat l)"
    and c: "cache_slot s1 params = None"
    and mk: "load (heap_G1 s1) master = Some (smul g2 alpha)"
    by blast
  from v obtain a where a: "params = Some a"
    "load (heap_G1 s1) (G3 (heap_Params s1 ! a)) = Some g3"
    unfolding params_vals_def by blast
  have le: "length ([] :: nat list) \<le> nat l" by simp
  from KeyGenFromMaster_key [where bn = bn, OF v le assms(4) mk]
  obtain key s2 where k: "KeyGenFromMaster bn params master [] s1 = (Inr key, s2)"
    "reader s2 = Inr n2 # ds" "extends False s1 s2"
    "key_for s2 (smul g2 alpha) g g3 hv (nat l) [] (n1 mod Order bn) key"
    by blast
  have c2: "cache_slot s2 params = None \<or>
      cache_value s2 params = Some (Pairing_of bn g2 (smul g alpha))"
    using c k(3) v
    by (auto simp add: params_vals_def extends_def params_kept_def cache_slot_Some)
  from round_trip_core [OF assms(1) params_vals_extends [OF k(3) v] k(4) le k(2)
      extends_load_GT [OF k(3) assms(3)] c2]
  obtain ct s3 pt s4 where r: "Encrypt bn params [] message s2 = (Inr ct, s3)"
    "Decrypt bn key ct s3 = (Inr pt, s4)" "load (heap_GT s4) pt = Some m"
    "ct_for s3 (Pairing_of bn g2 (smul g alpha)) g g3 hv [] (n2 mod Order bn) m ct"
    by blast
  have k0: "load (heap_G1 s2) (A0 key) = Some (smul g2 alpha + smul g3 (n1 mod Order bn))"
    "int (DepthLeft key) = l"
    using k(4) l by (simp_all add: key_for_def id_point_def DepthLeft_def)
  have c0: "load (heap_G1 s3) (ct_C ct) = Some (smul g3 (n2 mod Order bn))"
    using r(4) by (simp add: ct_for_def id_point_def)
  show ?thesis
    using a mk k(1) k0 r(1,2,3) c0 by blast
qed

theorem root_round_trip_witness:
  "bilinear (Pairing_of toy_bn) \<and>
   Setup toy_bn 2 toy_init = (Inr (Some 0, Some 4), toy_store) \<and>
   load (heap_GT toy_store) (Some 0) = Some 42 \<and>
   reader toy_store = Inr 23 # Inr 29 # [Inr 31, Inr 37, Inr 41, Inr 43] \<and>
   (\<exists>a mk g3 key s2 ct s3 pt s4.
     Some 0 = Some a \<and> load (heap_G1 toy_store) (G3 (heap_Params toy_store ! a)) = Some g3 \<and>
     load (heap_G1 toy_store) (Some 4) = Some mk \<and>
     KeyGenFromMaster toy_bn (Some 0) (Some 4) [] toy_store = (Inr key, s2) \<and>
     load (heap_G1 s2) (A0 key) = Some (mk + smul g3 (23 mod Order toy_bn)) \<and>
     int (DepthLeft key) = 2 \<and>
     Encrypt toy_bn (Some 0) [] (Some 0) s2 = (Inr ct, s3) \<and>
     load (heap_G1 s3) (ct_C ct) = Some (smul g3 (29 mod Order toy_bn)) \<and>
     Decrypt toy_bn key ct s3 = (Inr pt, s4) \<and>
     load (heap_GT s4) pt = Some 42)"
proof -
  have 3: "load (heap_GT toy_store) (Some 0) = Some 42"
    by (simp add: load_Some toy_store_def)
  have 4: "reader toy_store = Inr 23 # Inr 29 # [Inr 31, Inr 37, Inr 41, Inr 43]"
    by (simp add: toy_store_def)
  show ?thesis
    by (intro conjI toy_bilinear toy_Setup 3 4 root_round_trip [OF toy_bilinear toy_Setup 3 4])
qed

lemma length_two: "length xs = Suc (Suc 0) \<Longrightarrow> \<exists>a b. xs = [a, b]"
  by (cases xs; cases "tl xs") auto

text \<open>
  C2. Delegation. After a \<open>Setup\<close>, for an identity of depth \<open>k \<le> l\<close> and a reader whose
  next \<open>k + 3\<close> reads succeed: the chain (root key, then one \<open>KeyGenFromParent\<close> per
  segment) returns a key, \<open>KeyGenFromMaster\<close> returns a key for the same identity, and a
  ciphertext for that identity decrypts with either key to the same plaintext, the
  message.
\<close>

theorem delegation_equivalence:
  fixes s0 :: "('a::ab_group_add, 'b::ab_group_add, 'c::ab_group_add) store"
  assumes "bilinear (Pairing_of bn)"
    and "Setup bn l s0 = (Inr (params, master), s1)"
    and "int (length ids) \<le> l"
    and "load (heap_GT s1) message = Some m"
    and "reader s1 = map Inr ns @ ds" and "length ns = length ids + 3"
  shows "\<exists>kc s2 kd s3 ct s4 p1 s5 p2 s6.
     KeyGenByDelegation bn params master ids s1 = (Inr kc, s2) \<and>
     KeyGenFromMaster bn params master ids s2 = (Inr kd, s3) \<and>
     Encrypt bn params ids message s3 = (Inr ct, s4) \<and>
     Decrypt bn kc ct s4 = (Inr p1, s5) \<and>
     Decrypt bn kd ct s5 = (Inr p2, s6) \<and>
     load (heap_GT s6) p1 = Some m \<and> load (heap_GT s6) p2 = Some m"
proof -
  from Setup_vals [OF assms(2)] obtain g g2 g3 hv alpha where
    v: "params_vals s1 params g (smul g alpha) g2 g3 hv (nat l)"
    and c: "cache_slot s1 params = None"
    and mk: "load (heap_G1 s1) master = Some (smul g2 alpha)"
    by blast
  have le: "length ids \<le> nat l" using assms(3) by simp
  from assms(6) obtain n0 nk where n0: "ns = n0 # nk" "length nk = length ids + 2"
    by (cases ns) auto
  define nc where "nc = take (length ids) nk"
  have "length (drop (length ids) nk) = Suc (Suc 0)" using n0(2) by simp
  from length_two [OF this] obtain na nb where dr: "drop (length ids) nk = [na, nb]"
    by blast
  have nk: "nk = nc @ [na, nb]" "length nc = length ids"
    using append_take_drop_id [of "length ids" nk] dr n0(2) by (simp_all add: nc_def)
  have rd: "reader s1 = Inr n0 # map Inr nc @ (Inr na # Inr nb # ds)"
    using assms(5) n0 nk by simp
  from KeyGenByDelegation_key [where bn = bn, OF v le rd nk(2) mk]
  obtain kc s2 rc where kc: "KeyGenByDelegation bn params master ids s1 = (Inr kc, s2)"
    "reader s2 = Inr na # Inr nb # ds" "extends False s1 s2"
    "key_for s2 (smul g2 alpha) g g3 hv (nat l) ids rc kc"
    by blast
  note v2 = params_vals_extends [OF kc(3) v]
  from KeyGenFromMaster_key [where bn = bn, OF v2 le kc(2) extends_load_G1 [OF kc(3) mk]]
  obtain kd s3 where kd: "KeyGenFromMaster bn params master ids s2 = (Inr kd, s3)"
    "reader s3 = Inr nb # ds" "extends False s2 s3"
    "key_for s3 (smul g2 alpha) g g3 hv (nat l) ids (na mod Order bn) kd"
    by blast
  note v3 = params_vals_extends [OF kd(3) v2]
  note e13 = extends_trans [OF kc(3) kd(3)]
  have c3: "cache_slot s3 params = None \<or>
      cache_value s3 params = Some (Pairing_of bn g2 (smul g alpha))"
    using c e13 v
    by (auto simp add: params_vals_def extends_def params_kept_def cache_slot_Some)
  from round_trip_core [OF assms(1) v3 key_for_extends [OF kd(3) kc(4)] le kd(2)
      extends_load_GT [OF e13 assms(4)] c3]
  obtain ct s4 p1 s5 where r: "Encrypt bn params ids message s3 = (Inr ct, s4)"
    "Decrypt bn kc ct s4 = (Inr p1, s5)" "load (heap_GT s5) p1 = Some m"
    "extends True s3 s4" "extends False s4 s5"
    "ct_for s4 (Pairing_of bn g2 (smul g alpha)) g g3 hv ids (nb mod Order bn) m ct"
    by blast
  from Decrypt_plain [OF assms(1) key_for_extends [OF r(5) key_for_extends [OF r(4) kd(4)]]
      ct_for_extends [OF r(5) r(6)]]
  obtain p2 s6 where d: "Decrypt bn kd ct s5 = (Inr p2, s6)" "extends False s5 s6"
    "load (heap_GT s6) p2 = Some m"
    by blast
  show ?thesis
    using kc(1) kd(1) r(1,2) d(1,3) extends_load_GT [OF d(2) r(3)] by blast
qed

theorem delegation_equivalence_witness:
  "bilinear (Pairing_of toy_bn) \<and>
   Setup toy_bn 2 toy_init = (Inr (Some 0, Some 4), toy_store) \<and>
   int (length [3, 7 :: nat]) \<le> 2 \<and>
   load (heap_GT toy_store) (Some 0) = Some 42 \<and>
   reader toy_store = map Inr [23, 29, 31, 37, 41] @ [Inr 43] \<and>
   length [23, 29, 31, 37, 41 :: nat] = length [3, 7 :: nat] + 3 \<and>
   (\<exists>kc s2 kd s3 ct s4 p1 s5 p2 s6.
     KeyGenByDelegation toy_bn (Some 0) (Some 4) [3, 7] toy_store = (Inr kc, s2) \<and>
     KeyGenFromMaster toy_bn (Some 0) (Some 4) [3, 7] s2 = (Inr kd, s3) \<and>
     Encrypt toy_bn (Some 0) [3, 7] (Some 0) s3 = (Inr ct, s4) \<and>
     Decrypt toy_bn kc ct s4 = (Inr p1, s5) \<and>
     Decrypt toy_bn kd ct s5 = (Inr p2, s6) \<and>
     load (heap_GT s6) p1 = Some 42 \<and> load (heap_GT s6) p2 = Some 42)"
proof -
  have 3: "int (length [3, 7 :: nat]) \<le> 2" by simp
  have 4: "load (heap_GT toy_store) (Some 0) = Some 42"
    by (simp add: load_Some toy_store_def)
  have 5: "reader toy_store = map Inr [23, 29, 31, 37, 41] @ [Inr 43]"
    by (simp add: toy_store_def)
  have 6: "length [23, 29, 31, 37, 41 :: nat] = length [3, 7 :: nat] + 3" by simp
  show ?thesis
    by (intro conjI toy_bilinear toy_Setup 3 4 5 6
          delegation_equivalence [OF toy_bilinear toy_Setup 3 4 5 6])
qed

lemma valid_Params_vals:
  assumes "valid_Params s params"
  shows "\<exists>a g g1 g2 g3 hv. params = Some a \<and>
     params_vals s params g g1 g2 g3 hv (length (H (heap_Params s ! a))) \<and>
     (Pairing (heap_Params s ! a) = None \<or>
      (\<exists>pv. load (heap_GT s) (Pairing (heap_Params s ! a)) = Some pv))"
proof -
  from assms obtain a where a: "params = Some a" "a < length (heap_Params s)"
    and r: "readable (heap_G2 s) (G (heap_Params s ! a))"
      "readable (heap_G2 s) (G1 (heap_Params s ! a))"
      "readable (heap_G1 s) (G2 (heap_Params s ! a))"
      "readable (heap_G1 s) (G3 (heap_Params s ! a))"
      "list_all (readable (heap_G1 s)) (H (heap_Params s ! a))"
      "Pairing (heap_Params s ! a) = None \<or> readable (heap_GT s) (Pairing (heap_Params s ! a))"
    by (auto simp add: valid_Params_def split: option.splits)
  let ?hv = "\<lambda>i. the (load (heap_G1 s) (H (heap_Params s ! a) ! i))"
  have h: "\<forall>i<length (H (heap_Params s ! a)).
      load (heap_G1 s) (H (heap_Params s ! a) ! i) = Some (?hv i)"
    using r(5) by (auto simp add: list_all_length readable_def)
  from r(1-4) obtain g g1 g2 g3 where
    "load (heap_G2 s) (G (heap_Params s ! a)) = Some g"
    "load (heap_G2 s) (G1 (heap_Params s ! a)) = Some g1"
    "load (heap_G1 s) (G2 (heap_Params s ! a)) = Some g2"
    "load (heap_G1 s) (G3 (heap_Params s ! a)) = Some g3"
    by (auto simp add: readable_def)
  then have "params_vals s params g g1 g2 g3 ?hv (length (H (heap_Params s ! a)))"
    using a h unfolding params_vals_def by blast
  then have "\<exists>g g1 g2 g3 hv.
      params_vals s params g g1 g2 g3 hv (length (H (heap_Params s ! a)))"
    by blast
  moreover have "Pairing (heap_Params s ! a) = None \<or>
      (\<exists>pv. load (heap_GT s) (Pairing (heap_Params s ! a)) = Some pv)"
    using r(6) by (auto simp add: readable_def)
  ultimately show ?thesis using a(1) by blast
qed

lemma params_vals_valid:
  assumes "params_vals s params g g1 g2 g3 hv l" and "cache_slot s params = None"
  shows "valid_Params s params"
  using assms
  by (auto simp add: params_vals_def valid_Params_def readable_def list_all_length
        cache_slot_Some)

text \<open>
  C9. \<open>Encrypt\<close> has no depth check. With usable parameters, a message and a read that
  succeeds, an identity longer than \<open>params.H\<close> makes the accumulation loop read
  \<open>params.H[l]\<close>: the call ends in the index panic of the run time, not in the depth
  panic of the key generations.
\<close>

theorem Encrypt_beyond_depth_panics:
  fixes s :: "('a::ab_group_add, 'b::ab_group_add, 'c::ab_group_add) store"
  assumes "valid_Params s params" and "MaximumDepth params s = (Inr l, s)"
    and "l < length ids" and "reader s = Inr n # ds" and "readable (heap_GT s) message"
  shows "fst (Encrypt bn params ids message s) = Inl (Panic Index_out_of_range)"
proof -
  from valid_Params_vals [OF assms(1)] obtain a g g1 g2 g3 hv where a: "params = Some a"
    and v: "params_vals s params g g1 g2 g3 hv (length (H (heap_Params s ! a)))"
    and c: "Pairing (heap_Params s ! a) = None \<or>
      (\<exists>pv. load (heap_GT s) (Pairing (heap_Params s ! a)) = Some pv)"
    by blast
  from v a have al: "a < length (heap_Params s)"
    and w: "load (heap_G2 s) (G (heap_Params s ! a)) = Some g"
      "load (heap_G2 s) (G1 (heap_Params s ! a)) = Some g1"
      "load (heap_G1 s) (G2 (heap_Params s ! a)) = Some g2"
      "load (heap_G1 s) (G3 (heap_Params s ! a)) = Some g3"
      "\<forall>i<length (H (heap_Params s ! a)). load (heap_G1 s) (H (heap_Params s ! a) ! i) = Some (hv i)"
    unfolding params_vals_def by auto
  from MaximumDepth_Inr [OF assms(2)] a have l: "length (H (heap_Params s ! a)) = l" by simp
  from assms(5) obtain m where m: "load (heap_GT s) message = Some m"
    by (auto simp add: readable_def)
  obtain pv where "Pairing (heap_Params s ! a) = None \<and>
      load (heap_G1 s) (G2 (heap_Params s ! a)) = Some g2 \<and>
      load (heap_G2 s) (G1 (heap_Params s ! a)) = Some g1
    \<or> load (heap_GT s) (Pairing (heap_Params s ! a)) = Some pv"
    using c w by blast
  from Encrypt_overrun [where bn = bn and ids = ids, OF al refl _ assms(4) w(4) w(5) w(1) this m]
  show ?thesis using assms(3) l a by simp
qed

theorem Encrypt_beyond_depth_panics_witness:
  "valid_Params toy_store (Some 0) \<and> MaximumDepth (Some 0) toy_store = (Inr 2, toy_store) \<and>
   2 < length [3, 7, 9 :: nat] \<and>
   reader toy_store = Inr 23 # [Inr 29, Inr 31, Inr 37, Inr 41, Inr 43] \<and>
   readable (heap_GT toy_store) (Some 0) \<and>
   fst (Encrypt toy_bn (Some 0) [3, 7, 9] (Some 0) toy_store) = Inl (Panic Index_out_of_range)"
proof -
  have 1: "valid_Params toy_store (Some 0)"
    by (simp add: valid_Params_def readable_def load_Some toy_store_def)
  have 2: "MaximumDepth (Some 0) toy_store = (Inr 2, toy_store)"
    by (simp add: MaximumDepth_def get_Params_app toy_defs)
  have 3: "2 < length [3, 7, 9 :: nat]" by simp
  have 4: "reader toy_store = Inr 23 # [Inr 29, Inr 31, Inr 37, Inr 41, Inr 43]"
    by (simp add: toy_store_def)
  have 5: "readable (heap_GT toy_store) (Some 0)"
    by (simp add: readable_def load_Some toy_store_def)
  show ?thesis
    by (intro conjI 1 2 3 4 5 Encrypt_beyond_depth_panics [OF 1 2 3 4 5])
qed

text \<open>The cache, once set, under a step that extends the store.\<close>

lemma cache_kept:
  assumes "extends fill s s'" and "cache_slot s p = Some c" and "cache_value s p = Some v"
  shows "cache_slot s' p = Some c \<and> cache_value s' p = Some v"
proof -
  from assms(2) obtain a where a: "p = Some a" "a < length (heap_Params s)"
    "Pairing (heap_Params s ! a) = Some c"
    by (cases p) (auto simp add: cache_slot_def split: if_splits)
  have "a < length (heap_Params s')" "Pairing (heap_Params s' ! a) = Some c"
    using extends_Params [OF assms(1) a(2)] a(3) by (simp_all add: same_but_cache_def)
  then have 1: "cache_slot s' p = Some c" using a(1) by (simp add: cache_slot_Some)
  have "load (heap_GT s) (Some c) = Some v"
    using assms(2,3) by (simp add: cache_value_def)
  from extends_load_GT [OF assms(1) this] 1 show ?thesis
    by (simp add: cache_value_def)
qed

lemma cache_fill_then:
  fixes s :: "('a::ab_group_add, 'b::ab_group_add, 'c::ab_group_add) store"
  assumes a: "a < length (heap_Params s)"
    and g2: "load (heap_G1 s) (G2 (heap_Params s ! a)) = Some g2"
    and g1: "load (heap_G2 s) (G1 (heap_Params s ! a)) = Some g1"
    and cache: "Pairing (heap_Params s ! a) = None"
    and rd: "reader s = Inr n # ds"
  shows "bind_p (rand_Int bn) (\<lambda>k.
     bind_p (get_Params (Some a) Pairing) (\<lambda>pairing.
     bind_p (if pairing = None then
               bind_p (get_Params (Some a) G2) (\<lambda>g2.
               bind_p (get_Params (Some a) G1) (\<lambda>g1.
               bind_p (Pair bn g2 g1) (\<lambda>e.
               set_Params (Some a) (\<lambda>prm. prm\<lparr>Pairing := e\<rparr>))))
             else return ()) (\<lambda>_. R k))) s
   = R (n mod Order bn)
       (s\<lparr>reader := ds, heap_GT := heap_GT s @ [Some (Pairing_of bn g2 g1)],
          heap_Params := (heap_Params s)
            [a := (heap_Params s ! a)\<lparr>Pairing := Some (length (heap_GT s))\<rparr>]\<rparr>)"
proof -
  obtain b2 where b2: "G2 (heap_Params s ! a) = Some b2" "b2 < length (heap_G1 s)"
      "heap_G1 s ! b2 = Some g2"
    using g2 by (auto simp add: load_eq_Some)
  obtain b1 where b1: "G1 (heap_Params s ! a) = Some b1" "b1 < length (heap_G2 s)"
      "heap_G2 s ! b1 = Some g1"
    using g1 by (auto simp add: load_eq_Some)
  show ?thesis
    using a b2 b1 cache rd by (simp add: exec)
qed

lemma cache_skip_then:
  fixes s :: "('a::ab_group_add, 'b::ab_group_add, 'c::ab_group_add) store"
  assumes a: "a < length (heap_Params s)"
    and cache: "Pairing (heap_Params s ! a) = Some c"
    and rd: "reader s = Inr n # ds"
  shows "bind_p (rand_Int bn) (\<lambda>k.
     bind_p (get_Params (Some a) Pairing) (\<lambda>pairing.
     bind_p (if pairing = None then
               bind_p (get_Params (Some a) G2) (\<lambda>g2.
               bind_p (get_Params (Some a) G1) (\<lambda>g1.
               bind_p (Pair bn g2 g1) (\<lambda>e.
               set_Params (Some a) (\<lambda>prm. prm\<lparr>Pairing := e\<rparr>))))
             else return ()) (\<lambda>_. R k))) s
   = R (n mod Order bn) (s\<lparr>reader := ds\<rparr>)"
  using a cache rd by (simp add: exec)

lemma Encrypt_fills_cache:
  fixes s :: "('a::ab_group_add, 'b::ab_group_add, 'c::ab_group_add) store"
  assumes a: "a < length (heap_Params s)"
    and g2: "load (heap_G1 s) (G2 (heap_Params s ! a)) = Some g2"
    and g1: "load (heap_G2 s) (G1 (heap_Params s ! a)) = Some g1"
    and cache: "Pairing (heap_Params s ! a) = None"
    and rd: "reader s = Inr n # ds"
  shows "Encrypt bn (Some a) ids message s
     = Encrypt bn (Some a) ids message (snd (Precache bn (Some a) s))"
proof -
  let ?sp = "s\<lparr>heap_GT := heap_GT s @ [Some (Pairing_of bn g2 g1)],
       heap_Params := (heap_Params s)
         [a := (heap_Params s ! a)\<lparr>Pairing := Some (length (heap_GT s))\<rparr>]\<rparr>"
  have p: "snd (Precache bn (Some a) s) = ?sp"
    by (simp add: Precache_run [OF a refl g2 g1 cache])
  have 1: "a < length (heap_Params ?sp)" using a by simp
  have 2: "Pairing (heap_Params ?sp ! a) = Some (length (heap_GT s))" using a by simp
  have 3: "reader ?sp = Inr n # ds" using rd by simp
  have 4: "?sp\<lparr>reader := ds\<rparr>
      = s\<lparr>reader := ds, heap_GT := heap_GT s @ [Some (Pairing_of bn g2 g1)],
          heap_Params := (heap_Params s)
            [a := (heap_Params s ! a)\<lparr>Pairing := Some (length (heap_GT s))\<rparr>]\<rparr>"
    by (cases s) simp
  show ?thesis
    unfolding p Encrypt_def
    by (simp only: cache_fill_then [OF a g2 g1 cache rd] cache_skip_then [OF 1 2 3] 4)
qed

text \<open>
  C6. The pairing slot. \<open>Setup\<close> returns usable parameters with the slot empty. On
  usable parameters with the slot empty, \<open>Precache\<close> sets it to a new element with the
  value \<open>e(G2, G1)\<close>, and so does \<open>Encrypt\<close> once its read has succeeded. A slot that is
  set is left as it is, with the value it points to, by \<open>Precache\<close>, \<open>Encrypt\<close>,
  \<open>KeyGenFromMaster\<close>, \<open>KeyGenFromParent\<close> and \<open>Decrypt\<close>, whatever they are called
  with and however they end.
\<close>

theorem pairing_cache_set_once:
  fixes s :: "('a::ab_group_add, 'b::ab_group_add, 'c::ab_group_add) store"
  shows "(Setup bn l s0 = (Inr (params, master), s1) \<longrightarrow>
            valid_Params s1 params \<and> cache_slot s1 params = None) \<and>
         (valid_Params s p \<and> cache_slot s p = None \<longrightarrow>
            pairing_value bn s p \<noteq> None \<and>
            cache_value (snd (Precache bn p s)) p = pairing_value bn s p \<and>
            (reader s = Inr n # ds \<longrightarrow>
               cache_value (snd (Encrypt bn p ids message s)) p = pairing_value bn s p)) \<and>
         (cache_slot s p = Some c \<and> cache_value s p = Some v \<longrightarrow>
            cache_slot (snd (Precache bn q s)) p = Some c \<and>
            cache_value (snd (Precache bn q s)) p = Some v \<and>
            cache_slot (snd (Encrypt bn q ids' message' s)) p = Some c \<and>
            cache_value (snd (Encrypt bn q ids' message' s)) p = Some v \<and>
            cache_slot (snd (KeyGenFromMaster bn q mk ids' s)) p = Some c \<and>
            cache_value (snd (KeyGenFromMaster bn q mk ids' s)) p = Some v \<and>
            cache_slot (snd (KeyGenFromParent bn q parent ids' s)) p = Some c \<and>
            cache_value (snd (KeyGenFromParent bn q parent ids' s)) p = Some v \<and>
            cache_slot (snd (Decrypt bn key ct s)) p = Some c \<and>
            cache_value (snd (Decrypt bn key ct s)) p = Some v)"
proof (intro conjI impI)
  assume "Setup bn l s0 = (Inr (params, master), s1)"
  from Setup_vals [OF this] obtain g g2 g3 hv alpha where
    "params_vals s1 params g (smul g alpha) g2 g3 hv (nat l)" "cache_slot s1 params = None"
    by blast
  then show "valid_Params s1 params" "cache_slot s1 params = None"
    by (simp_all add: params_vals_valid)
next
  assume h: "valid_Params s p \<and> cache_slot s p = None"
  from valid_Params_vals [of s p] h obtain a g g1 g2 g3 hv where a: "p = Some a"
    and v: "params_vals s p g g1 g2 g3 hv (length (H (heap_Params s ! a)))"
    by blast
  from v a have al: "a < length (heap_Params s)"
    and w: "load (heap_G1 s) (G2 (heap_Params s ! a)) = Some g2"
      "load (heap_G2 s) (G1 (heap_Params s ! a)) = Some g1"
    unfolding params_vals_def by auto
  have e: "Pairing (heap_Params s ! a) = None"
    using h a al by (simp add: cache_slot_Some)
  have pv: "pairing_value bn s p = Some (Pairing_of bn g2 g1)"
    using a w by (simp add: pairing_value_def)
  show "pairing_value bn s p \<noteq> None" using pv by simp
  have pc: "cache_slot (snd (Precache bn p s)) p = Some (length (heap_GT s))"
    "cache_value (snd (Precache bn p s)) p = Some (Pairing_of bn g2 g1)"
    using al a
    by (simp_all add: Precache_run [OF al refl w e] cache_value_def cache_slot_Some load_Some)
  show "cache_value (snd (Precache bn p s)) p = pairing_value bn s p"
    using pc(2) pv by simp
  assume rd: "reader s = Inr n # ds"
  have "extends True (snd (Precache bn p s))
      (snd (Encrypt bn p ids message (snd (Precache bn p s))))"
    by (rule keepsD1 [OF keeps_Encrypt extends_refl])
  from cache_kept [OF this pc]
  show "cache_value (snd (Encrypt bn p ids message s)) p = pairing_value bn s p"
    using Encrypt_fills_cache [OF al w e rd, of bn ids message] a pv by simp
next
  assume h: "cache_slot s p = Some c \<and> cache_value s p = Some v"
  then have h1: "cache_slot s p = Some c" and h2: "cache_value s p = Some v" by simp_all
  show "cache_slot (snd (Precache bn q s)) p = Some c"
    "cache_value (snd (Precache bn q s)) p = Some v"
    using cache_kept [OF keepsD1 [OF keeps_Precache extends_refl] h1 h2] by simp_all
  show "cache_slot (snd (Encrypt bn q ids' message' s)) p = Some c"
    "cache_value (snd (Encrypt bn q ids' message' s)) p = Some v"
    using cache_kept [OF keepsD1 [OF keeps_Encrypt extends_refl] h1 h2] by simp_all
  show "cache_slot (snd (KeyGenFromMaster bn q mk ids' s)) p = Some c"
    "cache_value (snd (KeyGenFromMaster bn q mk ids' s)) p = Some v"
    using cache_kept [OF keepsD1 [OF keeps_KeyGenFromMaster extends_refl] h1 h2] by simp_all
  show "cache_slot (snd (KeyGenFromParent bn q parent ids' s)) p = Some c"
    "cache_value (snd (KeyGenFromParent bn q parent ids' s)) p = Some v"
    using cache_kept [OF keepsD1 [OF keeps_KeyGenFromParent extends_refl] h1 h2] by simp_all
  show "cache_slot (snd (Decrypt bn key ct s)) p = Some c"
    "cache_value (snd (Decrypt bn key ct s)) p = Some v"
    using cache_kept [OF keepsD1 [OF keeps_Decrypt extends_refl] h1 h2] by simp_all
qed

theorem pairing_cache_set_once_witness:
  "Setup toy_bn 2 toy_init = (Inr (Some 0, Some 4), toy_store) \<and>
   valid_Params toy_store (Some 0) \<and> cache_slot toy_store (Some 0) = None \<and>
   pairing_value toy_bn toy_store (Some 0) = Some 385 \<and>
   cache_value (snd (Precache toy_bn (Some 0) toy_store)) (Some 0) = Some 385 \<and>
   reader toy_store = Inr 23 # [Inr 29, Inr 31, Inr 37, Inr 41, Inr 43] \<and>
   cache_value (snd (Encrypt toy_bn (Some 0) [3, 7] (Some 0) toy_store)) (Some 0) = Some 385 \<and>
   cache_slot toy_cached (Some 0) = Some 1 \<and> cache_value toy_cached (Some 0) = Some 385 \<and>
   cache_slot (snd (Precache toy_bn (Some 0) toy_cached)) (Some 0) = Some 1 \<and>
   cache_value (snd (Precache toy_bn (Some 0) toy_cached)) (Some 0) = Some 385 \<and>
   cache_slot (snd (Encrypt toy_bn (Some 0) [3, 7] (Some 0) toy_cached)) (Some 0) = Some 1 \<and>
   cache_value (snd (Encrypt toy_bn (Some 0) [3, 7] (Some 0) toy_cached)) (Some 0) = Some 385 \<and>
   cache_slot (snd (KeyGenFromMaster toy_bn (Some 0) (Some 4) [3] toy_cached)) (Some 0) = Some 1 \<and>
   cache_value (snd (KeyGenFromMaster toy_bn (Some 0) (Some 4) [3] toy_cached)) (Some 0) = Some 385 \<and>
   cache_slot (snd (KeyGenFromParent toy_bn (Some 0)
      \<lparr>A0 = Some 4, A1 = Some 0, B = [Some 2]\<rparr> [3, 7] toy_cached)) (Some 0) = Some 1 \<and>
   cache_value (snd (KeyGenFromParent toy_bn (Some 0)
      \<lparr>A0 = Some 4, A1 = Some 0, B = [Some 2]\<rparr> [3, 7] toy_cached)) (Some 0) = Some 385 \<and>
   cache_slot (snd (Decrypt toy_bn \<lparr>A0 = Some 4, A1 = Some 0, B = []\<rparr>
      \<lparr>ct_A = Some 0, ct_B = Some 0, ct_C = Some 0\<rparr> toy_cached)) (Some 0) = Some 1 \<and>
   cache_value (snd (Decrypt toy_bn \<lparr>A0 = Some 4, A1 = Some 0, B = []\<rparr>
      \<lparr>ct_A = Some 0, ct_B = Some 0, ct_C = Some 0\<rparr> toy_cached)) (Some 0) = Some 385"
proof -
  have v: "valid_Params toy_store (Some 0)"
    by (simp add: valid_Params_def readable_def load_Some toy_store_def)
  have e: "cache_slot toy_store (Some 0) = None"
    by (simp add: cache_slot_def toy_store_def)
  have pv: "pairing_value toy_bn toy_store (Some 0) = Some 385"
    by (simp add: pairing_value_def load_Some toy_store_def toy_bn_def)
  have rd: "reader toy_store = Inr 23 # [Inr 29, Inr 31, Inr 37, Inr 41, Inr 43]"
    by (simp add: toy_store_def)
  have c: "cache_slot toy_cached (Some 0) = Some 1 \<and> cache_value toy_cached (Some 0) = Some 385"
    by (simp add: cache_value_def cache_slot_def load_Some toy_cached_def)
  note t = pairing_cache_set_once [where bn = toy_bn and p = "Some 0"]
  have 1: "cache_value (snd (Precache toy_bn (Some 0) toy_store)) (Some 0) = Some 385"
    "cache_value (snd (Encrypt toy_bn (Some 0) [3, 7] (Some 0) toy_store)) (Some 0) = Some 385"
    using t [where s = toy_store and n = 23 and ds = "[Inr 29, Inr 31, Inr 37, Inr 41, Inr 43]"
        and ids = "[3, 7]" and message = "Some 0"] v e pv rd by simp_all
  note u = t [where s = toy_cached and c = 1 and v = 385 and q = "Some 0"
      and ids' = "[3, 7]" and message' = "Some 0" and mk = "Some 4"
      and parent = "\<lparr>A0 = Some 4, A1 = Some 0, B = [Some 2]\<rparr>"
      and key = "\<lparr>A0 = Some 4, A1 = Some 0, B = []\<rparr>"
      and ct = "\<lparr>ct_A = Some 0, ct_B = Some 0, ct_C = Some 0\<rparr>",
      THEN conjunct2, THEN conjunct2, THEN mp, OF c]
  note w = t [where s = toy_cached and c = 1 and v = 385 and q = "Some 0"
      and ids' = "[3]" and mk = "Some 4", THEN conjunct2, THEN conjunct2, THEN mp, OF c]
  show ?thesis
    using toy_Setup v e pv rd c 1 u w by simp
qed

lemma random_nonzero_Inl: "random_nonzero ord ds = (Inl f, d) \<Longrightarrow> \<exists>e. f = Error e"
  by (induction ord ds rule: random_nonzero.induct) (auto split: if_splits)

lemma draws_Inl: "draws ord n ds = (Inl f, d) \<Longrightarrow> \<exists>e. f = Error e"
proof (induction n arbitrary: ds)
  case 0
  then show ?case by simp
next
  case (Suc n)
  obtain r d' where rn: "random_nonzero ord ds = (r, d')" by force
  show ?case
  proof (cases r)
    case (Inl g)
    with Suc.prems rn random_nonzero_Inl [of ord ds g d'] show ?thesis by simp
  next
    case (Inr k)
    with Suc.prems rn Suc.IH [of d'] show ?thesis by simp
  qed
qed

lemma Setup_reads_Inl:
  assumes "Setup_reads ord l ds = (Inl f, d)"
  shows "\<exists>e. f = Error e"
proof -
  obtain r d1 where rn: "random_nonzero ord ds = (r, d1)" by force
  show ?thesis
  proof (cases r)
    case (Inl g)
    with assms rn random_nonzero_Inl [of ord ds g d1] show ?thesis
      by (simp add: Setup_reads_def)
  next
    case (Inr k)
    with assms rn show ?thesis
      by (auto simp add: Setup_reads_def simp del: draws.simps
            split: list.splits sum.splits dest: draws_Inl)
  qed
qed

lemma reads_end_Inl:
  "reads_end u (Inl f :: failure + 'x) ds' = reads_end u (Inl f :: failure + 'y) ds'"
  by (simp add: reads_end_def)

lemma reads_end_Inr: "reads_end u (Inr x) ds' \<longleftrightarrow> list_all read_ok u"
  by (simp add: reads_end_def)

lemma reads_end_append:
  assumes "list_all read_ok u1" and "reads_end u2 r ds'"
  shows "reads_end (u1 @ u2) r ds'"
proof (cases r)
  case (Inl f)
  show ?thesis
  proof (cases f)
    case (Error e)
    with Inl assms show ?thesis
      by (auto simp add: reads_end_def butlast_append)
  next
    case (Panic p)
    with Inl assms show ?thesis by (simp add: reads_end_def)
  qed
next
  case (Inr x)
  with assms show ?thesis by (simp add: reads_end_def)
qed

lemma read_traceI: "reads_end u r ds' \<Longrightarrow> read_trace (u @ ds') r ds'"
  by (simp add: read_trace_def)

lemma read_traceE:
  assumes "read_trace ds r ds'"
  obtains u where "ds = u @ ds'" and "reads_end u r ds'"
proof
  let ?n = "length ds - length ds'"
  from assms have "drop ?n ds = ds'" by (simp add: read_trace_def)
  then show "ds = take ?n ds @ ds'" by (metis append_take_drop_id)
  from assms show "reads_end (take ?n ds) r ds'" by (simp add: read_trace_def)
qed

lemma sr_bind:
  assumes "sound_reads m" and "\<And>x. sound_reads (f x)"
  shows "sound_reads (bind_p m f)"
  unfolding sound_reads_def
proof
  fix s
  obtain r1 s1 where m: "m s = (r1, s1)" by (cases "m s")
  from assms(1) have t1: "read_trace (reader s) r1 (reader s1)"
    using m by (auto simp add: sound_reads_def dest: spec [of _ s])
  show "read_trace (reader s) (fst (bind_p m f s)) (reader (snd (bind_p m f s)))"
  proof (cases r1)
    case (Inl e)
    then show ?thesis
      using t1 m by (simp add: bind_p_def read_trace_def reads_end_def)
  next
    case (Inr x)
    from t1 obtain u1 where u1: "reader s = u1 @ reader s1" "reads_end u1 r1 (reader s1)"
      by (rule read_traceE)
    from assms(2) [of x]
    have "read_trace (reader s1) (fst (f x s1)) (reader (snd (f x s1)))"
      by (simp add: sound_reads_def)
    then obtain u2 where u2: "reader s1 = u2 @ reader (snd (f x s1))"
      "reads_end u2 (fst (f x s1)) (reader (snd (f x s1)))"
      by (rule read_traceE)
    have "reads_end (u1 @ u2) (fst (f x s1)) (reader (snd (f x s1)))"
      using u1(2) u2(2) Inr by (simp add: reads_end_append reads_end_Inr)
    from read_traceI [OF this] show ?thesis
      using m Inr u1(1) u2(1) by (simp add: bind_p_def)
  qed
qed

lemma sr_quiet:
  assumes "\<And>s. reader (snd (m s)) = reader s" and "\<And>s. \<not> returns_error (fst (m s))"
  shows "sound_reads m"
  unfolding sound_reads_def
proof
  fix s
  have "reads_end [] (fst (m s)) (reader s)"
    using assms(2) [of s]
    by (auto simp add: reads_end_def returns_error_def split: sum.splits failure.splits)
  from read_traceI [OF this] show "read_trace (reader s) (fst (m s)) (reader (snd (m s)))"
    by (simp add: assms(1))
qed

lemma sr_return: "sound_reads (return x)"
  by (rule sr_quiet) (simp_all add: return_def returns_error_def)

lemma sr_throw: "sound_reads (throw (Panic p))"
  by (rule sr_quiet) (simp_all add: throw_def returns_error_def)

lemma sr_if: "sound_reads m \<Longrightarrow> sound_reads m' \<Longrightarrow> sound_reads (if c then m else m')"
  by simp

lemma sr_for_loop:
  assumes "\<And>i v. sound_reads (body i v)"
  shows "sound_reads (for_loop is body v)"
proof (induction "is" arbitrary: v)
  case Nil
  show ?case by (simp add: sr_return)
next
  case (Cons i "is")
  show ?case unfolding for_loop.simps by (rule sr_bind [OF assms]) (rule Cons.IH)
qed

lemma sr_index: "sound_reads (index xs i)"
  by (simp add: index_def sr_return sr_throw)

lemma sr_get_G1: "sound_reads (get_G1 p)"
  by (rule sr_quiet) (simp_all add: get_G1_def returns_error_def split: option.splits)

lemma sr_get_G2: "sound_reads (get_G2 p)"
  by (rule sr_quiet) (simp_all add: get_G2_def returns_error_def split: option.splits)

lemma sr_get_GT: "sound_reads (get_GT p)"
  by (rule sr_quiet) (simp_all add: get_GT_def returns_error_def split: option.splits)

lemma sr_get_Params: "sound_reads (get_Params p f)"
  by (rule sr_quiet) (simp_all add: get_Params_def returns_error_def split: option.splits)

lemma sr_set_Params: "sound_reads (set_Params p f)"
  by (rule sr_quiet) (simp_all add: set_Params_def returns_error_def split: option.splits)

lemma sr_new_Params: "sound_reads new_Params"
  by (rule sr_quiet) (simp_all add: new_Params_def returns_error_def)

lemma sr_new_G1: "sound_reads new_G1"
  by (rule sr_quiet) (simp_all add: new_G1_def returns_error_def)

lemma sr_new_G2: "sound_reads new_G2"
  by (rule sr_quiet) (simp_all add: new_G2_def returns_error_def)

lemma sr_new_GT: "sound_reads new_GT"
  by (rule sr_quiet) (simp_all add: new_GT_def returns_error_def)

lemma sr_set_G1: "sound_reads (set_G1 e v)"
  by (rule sr_quiet) (simp_all add: set_G1_def returns_error_def split: option.splits)

lemma sr_set_G2: "sound_reads (set_G2 e v)"
  by (rule sr_quiet) (simp_all add: set_G2_def returns_error_def split: option.splits)

lemma sr_set_GT: "sound_reads (set_GT e v)"
  by (rule sr_quiet) (simp_all add: set_GT_def returns_error_def split: option.splits)

lemma sr_rand_Int: "sound_reads (rand_Int bn)"
  unfolding sound_reads_def
proof
  fix s :: "('a, 'b, 'c) store"
  show "read_trace (reader s) (fst (rand_Int bn s)) (reader (snd (rand_Int bn s)))"
  proof (cases "reader s")
    case Nil
    then show ?thesis by (simp add: rand_Int_def read_trace_def reads_end_def)
  next
    case (Cons d ds)
    then show ?thesis
      by (cases d) (simp_all add: rand_Int_def read_trace_def reads_end_def read_ok_def)
  qed
qed

lemma random_nonzero_trace:
  "read_trace ds (fst (random_nonzero ord ds) :: failure + nat) (snd (random_nonzero ord ds))"
proof (induction ord ds rule: random_nonzero.induct)
  case (1 ord)
  show ?case by (simp add: read_trace_def reads_end_def)
next
  case (2 ord e ds)
  show ?case by (simp add: read_trace_def reads_end_def)
next
  case (3 ord n ds)
  show ?case
  proof (cases "0 < n mod ord")
    case True
    then show ?thesis by (simp add: read_trace_def reads_end_def read_ok_def)
  next
    case False
    from 3 [OF False] obtain u where u: "ds = u @ snd (random_nonzero ord ds)"
      "reads_end u (fst (random_nonzero ord ds)) (snd (random_nonzero ord ds))"
      by (rule read_traceE)
    have "reads_end ([Inr n] @ u) (fst (random_nonzero ord ds)) (snd (random_nonzero ord ds))"
      by (rule reads_end_append) (simp_all add: read_ok_def u(2))
    from read_traceI [OF this] show ?thesis
      using False u(1) by simp
  qed
qed

lemma sr_randomK: "sound_reads (randomK bn)"
  unfolding sound_reads_def
proof
  fix s :: "('a, 'b, 'c) store"
  show "read_trace (reader s) (fst (randomK bn s)) (reader (snd (randomK bn s)))"
    using random_nonzero_trace [of "reader s" "Order bn"]
    by (cases "random_nonzero (Order bn) (reader s)") (simp add: randomK_def)
qed

lemmas sr_intros =
  sr_bind sr_if sr_for_loop sr_return sr_throw sr_index sr_get_G1 sr_get_G2 sr_get_GT
  sr_get_Params sr_set_Params sr_new_Params sr_new_G1 sr_new_G2 sr_new_GT sr_set_G1 sr_set_G2
  sr_set_GT sr_rand_Int sr_randomK

lemma sr_Setup: "sound_reads (Setup bn l)"
  unfolding Setup_def RandomG1_def RandomG2_def G1_ScalarMult_def G2_ScalarMult_def
  by (intro sr_intros)

lemma sr_KeyGenFromMaster: "sound_reads (KeyGenFromMaster bn params master ids)"
  unfolding KeyGenFromMaster_def Let_def accumulate_def deepClone_def G1_ScalarMult_def
    G2_ScalarMult_def G1_Add_def G2_Add_def
  by (intro sr_intros)

lemma sr_KeyGenFromParent: "sound_reads (KeyGenFromParent bn params parent ids)"
  unfolding KeyGenFromParent_def Let_def accumulate_def deepClone_def G1_ScalarMult_def
    G2_ScalarMult_def G1_Add_def G2_Add_def
  by (intro sr_intros)

lemma sr_Encrypt: "sound_reads (Encrypt bn params ids message)"
  unfolding Encrypt_def accumulate_def deepClone_def G1_ScalarMult_def G2_ScalarMult_def
    G1_Add_def GT_ScalarMult_def GT_Add_def Pair_def
  by (intro sr_intros)

lemma after_read_Nil: "reader s = [] \<Longrightarrow> after_read s = s"
  by (cases s) (simp add: after_read_def)

lemma rand_Int_fails:
  assumes "read_error s = Some e"
  shows "rand_Int bn s = (Inl (Error e), after_read s)"
proof (cases "reader s")
  case Nil
  with assms show ?thesis by (simp add: rand_Int_def read_error_def after_read_Nil)
next
  case (Cons d ds)
  with assms show ?thesis
    by (cases d) (simp_all add: rand_Int_def read_error_def after_read_def)
qed

text \<open>
  C7. A failing read ends the operation in that error. \<open>Encrypt\<close> reads first, the key
  generations read right after their depth checks: when that read fails they return its
  error, and the store is as it was but for the reader (nothing allocated, the pairing
  slot as it was). \<open>Setup\<close> reads several times, as \<open>Setup_reads\<close> does: when one of these
  reads fails (an error of the reader, or a reader that has run out), \<open>Setup\<close> returns that
  error and has read nothing after it; when none fails, \<open>Setup\<close> returns its results.
  Whatever \<open>Setup\<close> ends in, every element and struct that was in the store is as it
  was. Of the reads any of the four operations makes, every one succeeds but, when it
  ends in an error, the last, whose error it returns. The result of a failed run is the
  error alone: there is no \<open>Params\<close>, key or ciphertext beside it.
\<close>

theorem entropy_failure_propagates:
  fixes s :: "('a::ab_group_add, 'b::ab_group_add, 'c::ab_group_add) store"
  shows "(read_error s = Some e \<longrightarrow>
            Encrypt bn params ids message s = (Inl (Error e), after_read s)) \<and>
         (read_error s = Some e \<and> MaximumDepth params s = (Inr l, s) \<and> length ids \<le> l \<longrightarrow>
            KeyGenFromMaster bn params master ids s = (Inl (Error e), after_read s)) \<and>
         (read_error s = Some e \<and> MaximumDepth params s = (Inr l, s) \<and> length ids \<le> l \<and>
          int (DepthLeft parent) = int l - int (length ids) + 1 \<longrightarrow>
            KeyGenFromParent bn params parent ids s = (Inl (Error e), after_read s)) \<and>
         read_trace (reader s) (fst (Setup bn d s)) (reader (snd (Setup bn d s))) \<and>
         extends False s (snd (Setup bn d s)) \<and>
         read_trace (reader s) (fst (Encrypt bn params ids message s))
           (reader (snd (Encrypt bn params ids message s))) \<and>
         read_trace (reader s) (fst (KeyGenFromMaster bn params master ids s))
           (reader (snd (KeyGenFromMaster bn params master ids s))) \<and>
         read_trace (reader s) (fst (KeyGenFromParent bn params parent ids s))
           (reader (snd (KeyGenFromParent bn params parent ids s))) \<and>
         (Setup_reads (Order bn) d (reader s) = (Inl f, rest) \<longrightarrow>
            (\<exists>e'. f = Error e') \<and> fst (Setup bn d s) = Inl f \<and>
            reader (snd (Setup bn d s)) = rest) \<and>
         (Setup_reads (Order bn) d (reader s) = (Inr (), rest) \<and> 0 \<le> d \<longrightarrow>
            (\<exists>p. fst (Setup bn d s) = Inr p) \<and> reader (snd (Setup bn d s)) = rest)"
proof (intro conjI impI)
  assume "read_error s = Some e"
  then show "Encrypt bn params ids message s = (Inl (Error e), after_read s)"
    by (simp add: Encrypt_def bind_p_app rand_Int_fails)
next
  assume h: "read_error s = Some e \<and> MaximumDepth params s = (Inr l, s) \<and> length ids \<le> l"
  then have "get_Params params (\<lambda>prm. length (H prm)) s = (Inr l, s)"
    by (simp add: MaximumDepth_def)
  then show "KeyGenFromMaster bn params master ids s = (Inl (Error e), after_read s)"
    using h by (simp add: KeyGenFromMaster_def Let_def bind_p_app rand_Int_fails)
next
  assume h: "read_error s = Some e \<and> MaximumDepth params s = (Inr l, s) \<and> length ids \<le> l \<and>
    int (DepthLeft parent) = int l - int (length ids) + 1"
  then have "get_Params params (\<lambda>prm. length (H prm)) s = (Inr l, s)"
    by (simp add: MaximumDepth_def)
  then show "KeyGenFromParent bn params parent ids s = (Inl (Error e), after_read s)"
    using h by (simp add: KeyGenFromParent_def Let_def bind_p_app rand_Int_fails)
next
  show "read_trace (reader s) (fst (Setup bn d s)) (reader (snd (Setup bn d s)))"
    using sr_Setup [of bn d] by (simp add: sound_reads_def)
  show "extends False s (snd (Setup bn d s))"
    by (rule keepsD1 [OF keeps_Setup extends_refl])
  show "read_trace (reader s) (fst (Encrypt bn params ids message s))
      (reader (snd (Encrypt bn params ids message s)))"
    using sr_Encrypt [of bn params ids message] by (simp add: sound_reads_def)
  show "read_trace (reader s) (fst (KeyGenFromMaster bn params master ids s))
      (reader (snd (KeyGenFromMaster bn params master ids s)))"
    using sr_KeyGenFromMaster [of bn params master ids] by (simp add: sound_reads_def)
  show "read_trace (reader s) (fst (KeyGenFromParent bn params parent ids s))
      (reader (snd (KeyGenFromParent bn params parent ids s)))"
    using sr_KeyGenFromParent [of bn params parent ids] by (simp add: sound_reads_def)
next
  assume h: "Setup_reads (Order bn) d (reader s) = (Inl f, rest)"
  from Setup_reads_Inl [OF h] show "\<exists>e'. f = Error e'" .
  from Setup_reads_run [of bn d s, THEN conjunct1, rule_format, OF h]
  show "fst (Setup bn d s) = Inl f" "reader (snd (Setup bn d s)) = rest" by simp_all
next
  assume h: "Setup_reads (Order bn) d (reader s) = (Inr (), rest) \<and> 0 \<le> d"
  from Setup_reads_run [of bn d s, THEN conjunct2, rule_format, OF h]
  show "\<exists>p. fst (Setup bn d s) = Inr p" "reader (snd (Setup bn d s)) = rest" by simp_all
qed

theorem entropy_failure_propagates_witness:
  "read_error toy_broken = Some (Read_error 1) \<and>
   Encrypt toy_bn (Some 0) [3, 7] (Some 0) toy_broken
     = (Inl (Error (Read_error 1)), toy_store\<lparr>reader := [Inr 5]\<rparr>) \<and>
   MaximumDepth (Some 0) toy_broken = (Inr 2, toy_broken) \<and> length [3, 7 :: nat] \<le> 2 \<and>
   KeyGenFromMaster toy_bn (Some 0) (Some 4) [3, 7] toy_broken
     = (Inl (Error (Read_error 1)), toy_store\<lparr>reader := [Inr 5]\<rparr>) \<and>
   int (DepthLeft \<lparr>A0 = Some 4, A1 = Some 0, B = [Some 2]\<rparr>) = int 2 - int (length [3, 7 :: nat]) + 1 \<and>
   KeyGenFromParent toy_bn (Some 0) \<lparr>A0 = Some 4, A1 = Some 0, B = [Some 2]\<rparr> [3, 7] toy_broken
     = (Inl (Error (Read_error 1)), toy_store\<lparr>reader := [Inr 5]\<rparr>) \<and>
   Setup_reads (Order toy_bn) 2 (reader toy_init_broken)
     = (Inl (Error (Read_error 1)), [Inr 13]) \<and>
   fst (Setup toy_bn 2 toy_init_broken) = Inl (Error (Read_error 1)) \<and>
   reader (snd (Setup toy_bn 2 toy_init_broken)) = [Inr 13] \<and>
   Setup_reads (Order toy_bn) 2 (reader toy_init_short) = (Inl (Error EOF), []) \<and>
   fst (Setup toy_bn 2 toy_init_short) = Inl (Error EOF) \<and>
   reader (snd (Setup toy_bn 2 toy_init_short)) = [] \<and>
   Setup_reads (Order toy_bn) 2 (reader toy_init)
     = (Inr (), [Inr 23, Inr 29, Inr 31, Inr 37, Inr 41, Inr 43]) \<and> (0 :: int) \<le> 2 \<and>
   fst (Setup toy_bn 2 toy_init) = Inr (Some 0, Some 4) \<and>
   reader (snd (Setup toy_bn 2 toy_init)) = [Inr 23, Inr 29, Inr 31, Inr 37, Inr 41, Inr 43] \<and>
   read_trace (reader toy_init_broken) (fst (Setup toy_bn 2 toy_init_broken))
     (reader (snd (Setup toy_bn 2 toy_init_broken))) \<and>
   extends False toy_init_broken (snd (Setup toy_bn 2 toy_init_broken))"
proof -
  let ?p = "\<lparr>A0 = Some 4, A1 = Some 0, B = [Some 2]\<rparr>"
  have re: "read_error toy_broken = Some (Read_error 1)"
    by (simp add: read_error_def toy_broken_def)
  have md: "MaximumDepth (Some 0) toy_broken = (Inr 2, toy_broken)"
    by (simp add: MaximumDepth_def get_Params_app toy_broken_def toy_defs)
  have len: "length [3, 7 :: nat] \<le> 2" by simp
  have dl: "int (DepthLeft ?p) = int 2 - int (length [3, 7 :: nat]) + 1"
    by (simp add: DepthLeft_def)
  have ar: "after_read toy_broken = toy_store\<lparr>reader := [Inr 5]\<rparr>"
    by (simp add: after_read_def toy_broken_def)
  note t = entropy_failure_propagates [where s = toy_broken and e = "Read_error 1"
      and bn = toy_bn and params = "Some 0" and ids = "[3, 7]" and message = "Some 0"
      and l = 2 and master = "Some 4" and parent = ?p]
  note u = entropy_failure_propagates [where s = toy_init_broken and bn = toy_bn and d = 2]
  have 1: "Encrypt toy_bn (Some 0) [3, 7] (Some 0) toy_broken
      = (Inl (Error (Read_error 1)), toy_store\<lparr>reader := [Inr 5]\<rparr>)"
    using t [THEN conjunct1, THEN mp, OF re] by (simp only: ar)
  have 2: "KeyGenFromMaster toy_bn (Some 0) (Some 4) [3, 7] toy_broken
      = (Inl (Error (Read_error 1)), toy_store\<lparr>reader := [Inr 5]\<rparr>)"
    using t [THEN conjunct2, THEN conjunct1, THEN mp, OF conjI [OF re conjI [OF md len]]]
    by (simp only: ar)
  have 3: "KeyGenFromParent toy_bn (Some 0) ?p [3, 7] toy_broken
      = (Inl (Error (Read_error 1)), toy_store\<lparr>reader := [Inr 5]\<rparr>)"
    using t [THEN conjunct2, THEN conjunct2, THEN conjunct1, THEN mp,
        OF conjI [OF re conjI [OF md conjI [OF len dl]]]]
    by (simp only: ar)
  have n4: "2 + nat (2 :: int) = Suc (Suc (Suc (Suc 0)))" by simp
  have 4: "Setup_reads (Order toy_bn) 2 (reader toy_init_broken)
      = (Inl (Error (Read_error 1)), [Inr 13])"
    unfolding Setup_reads_def n4 by (simp add: toy_init_broken_def toy_defs)
  have 5: "fst (Setup toy_bn 2 toy_init_broken) = Inl (Error (Read_error 1))"
    "reader (snd (Setup toy_bn 2 toy_init_broken)) = [Inr 13]"
    using entropy_failure_propagates [where s = toy_init_broken and bn = toy_bn and d = 2
        and f = "Error (Read_error 1)" and rest = "[Inr 13]",
        THEN conjunct2, THEN conjunct2, THEN conjunct2, THEN conjunct2, THEN conjunct2,
        THEN conjunct2, THEN conjunct2, THEN conjunct2, THEN conjunct1, THEN mp, OF 4]
    by simp_all
  have 6: "Setup_reads (Order toy_bn) 2 (reader toy_init_short) = (Inl (Error EOF), [])"
    unfolding Setup_reads_def n4 by (simp add: toy_init_short_def toy_defs)
  have 7: "fst (Setup toy_bn 2 toy_init_short) = Inl (Error EOF)"
    "reader (snd (Setup toy_bn 2 toy_init_short)) = []"
    using entropy_failure_propagates [where s = toy_init_short and bn = toy_bn and d = 2
        and f = "Error EOF" and rest = "[]",
        THEN conjunct2, THEN conjunct2, THEN conjunct2, THEN conjunct2, THEN conjunct2,
        THEN conjunct2, THEN conjunct2, THEN conjunct2, THEN conjunct1, THEN mp, OF 6]
    by simp_all
  have 8: "Setup_reads (Order toy_bn) 2 (reader toy_init)
      = (Inr (), [Inr 23, Inr 29, Inr 31, Inr 37, Inr 41, Inr 43])"
    unfolding Setup_reads_def n4 by (simp add: toy_defs)
  have 9: "(0 :: int) \<le> 2" by simp
  have 10: "fst (Setup toy_bn 2 toy_init) = Inr (Some 0, Some 4)"
    by (simp add: toy_Setup)
  have 11: "reader (snd (Setup toy_bn 2 toy_init))
      = [Inr 23, Inr 29, Inr 31, Inr 37, Inr 41, Inr 43]"
    using entropy_failure_propagates [where s = toy_init and bn = toy_bn and d = 2
        and rest = "[Inr 23, Inr 29, Inr 31, Inr 37, Inr 41, Inr 43]",
        THEN conjunct2, THEN conjunct2, THEN conjunct2, THEN conjunct2, THEN conjunct2,
        THEN conjunct2, THEN conjunct2, THEN conjunct2, THEN conjunct2, THEN mp,
        OF conjI [OF 8 9]]
    by simp
  show ?thesis
    by (intro conjI re 1 md len 2 dl 3 4 5 6 7 8 9 10 11
          u [THEN conjunct2, THEN conjunct2, THEN conjunct2, THEN conjunct1]
          u [THEN conjunct2, THEN conjunct2, THEN conjunct2, THEN conjunct2, THEN conjunct1])
qed

end
